theory Spec2Isabelle
  imports Complex_Main "HOL-Library.AList" "HOL-Library.Sublist"
begin

section \<open>Geometry kernel of generate\_plan.py\<close>

text \<open>
  The planner computes with Python floats.  Every coordinate it produces is a small
  multiple of 1/8, on which float addition, subtraction, multiplication by 0.25 and
  division by 0.25 are exact, so the floats are modelled by the reals they denote.
  Infinities, NaN and overflow are outside the model.
\<close>

definition GRID :: real where
  "GRID = 0.25"

definition STEP :: real where
  "STEP = 1"

definition HALL_W :: real where
  "HALL_W = 80"

definition HALL_H :: real where
  "HALL_H = 40"

text \<open>Python's \<^verbatim>\<open>round(v)\<close> on a float: the nearest integer, a tie going to the even one.\<close>

definition py_round :: "real \<Rightarrow> int" where
  "py_round v =
     (let f = \<lfloor>v\<rfloor>; d = v - of_int f
      in if d < 1 / 2 then f
         else if 1 / 2 < d then f + 1
         else if even f then f else f + 1)"

definition snap :: "real \<Rightarrow> real" where
  "snap v = of_int (py_round (v / GRID)) * GRID"

text \<open>
  The dataclass \<^verbatim>\<open>Rect\<close>.  Its fields are \<^verbatim>\<open>x, y, w, h, label, zone\<close>; they carry the
  prefix \<open>r\<close> here so that the single letters stay available as variables.
\<close>

record Rect =
  rx :: real
  ry :: real
  rw :: real
  rh :: real
  rlabel :: string
  rzone :: string

definition mk_rect :: "real \<Rightarrow> real \<Rightarrow> real \<Rightarrow> real \<Rightarrow> string \<Rightarrow> string \<Rightarrow> Rect" where
  "mk_rect a b c d l z = \<lparr>rx = a, ry = b, rw = c, rh = d, rlabel = l, rzone = z\<rparr>"

definition rects_overlap :: "Rect \<Rightarrow> Rect \<Rightarrow> bool" where
  "rects_overlap r1 r2 =
     (\<not> (rx r1 + rw r1 \<le> rx r2 \<or>
         rx r2 + rw r2 \<le> rx r1 \<or>
         ry r1 + rh r1 \<le> ry r2 \<or>
         ry r2 + rh r2 \<le> ry r1))"

text \<open>
  \<^verbatim>\<open>math.isclose(a, b, abs_tol=t)\<close> with the default relative tolerance \<open>1e-9\<close>:
  the difference is at most the larger of the relative and the absolute tolerance.
\<close>

definition rel_tol :: real where
  "rel_tol = 1 / 10 ^ 9"

definition EPS :: real where
  "EPS = 1 / 10 ^ 6"

definition isclose :: "real \<Rightarrow> real \<Rightarrow> real \<Rightarrow> bool" where
  "isclose a b abs_tol =
     (a = b \<or> \<bar>b - a\<bar> \<le> \<bar>rel_tol * b\<bar> \<or> \<bar>b - a\<bar> \<le> \<bar>rel_tol * a\<bar> \<or> \<bar>b - a\<bar> \<le> abs_tol)"

text \<open>The test \<^verbatim>\<open>touches_corridor\<close> makes on one corridor, left/right first.\<close>

definition contact_lr :: "Rect \<Rightarrow> Rect \<Rightarrow> bool" where
  "contact_lr r c =
     ((isclose (rx r + rw r) (rx c) EPS \<or> isclose (rx c + rw c) (rx r) EPS) \<and>
      \<not> (ry r \<ge> ry c + rh c \<or> ry r + rh r \<le> ry c))"

definition contact_tb :: "Rect \<Rightarrow> Rect \<Rightarrow> bool" where
  "contact_tb r c =
     ((isclose (ry r + rh r) (ry c) EPS \<or> isclose (ry c + rh c) (ry r) EPS) \<and>
      \<not> (rx r \<ge> rx c + rw c \<or> rx r + rw r \<le> rx c))"

fun touches_corridor :: "Rect \<Rightarrow> Rect list \<Rightarrow> bool" where
  "touches_corridor r [] = False"
| "touches_corridor r (c # cs) =
     (if contact_lr r c then True
      else if contact_tb r c then True
      else touches_corridor r cs)"

text \<open>The zone-bounds dictionary with its four keys \<^verbatim>\<open>x0, x1, y0, y1\<close>.\<close>

record bounds =
  bx0 :: real
  bx1 :: real
  by0 :: real
  by1 :: real

definition inside_zone :: "Rect \<Rightarrow> bounds \<Rightarrow> bool" where
  "inside_zone r zb =
     (rx r \<ge> bx0 zb - EPS \<and>
      rx r + rw r \<le> bx1 zb + EPS \<and>
      ry r \<ge> by0 zb - EPS \<and>
      ry r + rh r \<le> by1 zb + EPS)"

section \<open>Layout model\<close>

definition ZONE_A :: bounds where
  "ZONE_A = \<lparr>bx0 = 0, bx1 = 48, by0 = 7, by1 = 33\<rparr>"

definition ZONE_B :: bounds where
  "ZONE_B = \<lparr>bx0 = 52, bx1 = 80, by0 = 7, by1 = 33\<rparr>"

definition MAIN_CORRIDORS :: "Rect list" where
  "MAIN_CORRIDORS =
     [mk_rect 48 0 4 40 ''main_vertical'' '''',
      mk_rect 0 33 80 4 ''main_upper'' '''',
      mk_rect 0 3 80 4 ''main_lower'' '''']"

definition SECONDARY_CORRIDORS :: "Rect list" where
  "SECONDARY_CORRIDORS =
     [mk_rect 22.5 7 3 26 ''spur_A'' '''',
      mk_rect 62.5 7 3 26 ''spur_B'' '''']"

definition TERTIARY_CORRIDORS :: "Rect list" where
  "TERTIARY_CORRIDORS = [mk_rect 0 19 80 3 ''tertiary_mid'' '''']"

definition CORRIDORS :: "Rect list" where
  "CORRIDORS = MAIN_CORRIDORS @ SECONDARY_CORRIDORS @ TERTIARY_CORRIDORS"

definition INVENTORY :: "(int \<times> int) list" where
  "INVENTORY =
     [(200, 2), (100, 3), (90, 2), (80, 3), (60, 4), (48, 5), (40, 4),
      (30, 5), (20, 5), (18, 5), (15, 4), (12, 6)]"

definition SHAPES :: "(int \<times> (real \<times> real) list) list" where
  "SHAPES =
     [(200, [(20, 10), (10, 20)]),
      (100, [(10, 10)]),
      (90, [(9, 10), (10, 9)]),
      (80, [(8, 10), (10, 8)]),
      (60, [(10, 6), (6, 10)]),
      (48, [(8, 6), (6, 8)]),
      (40, [(8, 5), (5, 8)]),
      (30, [(10, 3), (6, 5), (5, 6)]),
      (20, [(5, 4), (4, 5)]),
      (18, [(6, 3), (4.5, 4), (4, 4.5)]),
      (15, [(5, 3), (3.75, 4), (4, 3.75)]),
      (12, [(4, 3), (3, 4)])]"

section \<open>Exceptions\<close>

text \<open>
  The three \<^verbatim>\<open>RuntimeError\<close>s the planner raises, with the data their messages are built
  from, and the two built-in exceptions its dictionary lookups and its division can raise.
\<close>

datatype error =
    Overlap_placing Rect
  | No_corridor_contact Rect
  | No_candidates int string
  | KeyError
  | ZeroDivisionError


definition err_bind :: "error + 'a \<Rightarrow> ('a \<Rightarrow> error + 'b) \<Rightarrow> error + 'b" where
  "err_bind m f = (case m of Inl e \<Rightarrow> Inl e | Inr v \<Rightarrow> f v)"

text \<open>The decimal digits of a natural number, as \<^verbatim>\<open>str\<close> and the f-strings print it.\<close>

fun str_nat :: "nat \<Rightarrow> string" where
  "str_nat n =
     (if n < 10 then [''0123456789'' ! n]
      else str_nat (n div 10) @ [''0123456789'' ! (n mod 10)])"

declare str_nat.simps [simp del]

section \<open>Outer-strip placer\<close>

text \<open>
  The variables \<^verbatim>\<open>placed\<close>, \<^verbatim>\<open>used\<close> and \<^verbatim>\<open>bid\<close> that the inner function \<^verbatim>\<open>add\<close> updates.
  \<^verbatim>\<open>used\<close> is a dictionary whose insertion order is kept, hence an association list.
\<close>

record strips =
  st_placed :: "Rect list"
  st_used :: "(int \<times> int) list"
  st_bid :: nat

definition dict_get :: "('k \<times> 'v) list \<Rightarrow> 'k \<Rightarrow> 'v \<Rightarrow> 'v" where
  "dict_get d k dflt = (case map_of d k of None \<Rightarrow> dflt | Some v \<Rightarrow> v)"

definition add :: "Rect list \<Rightarrow> strips \<Rightarrow> int \<Rightarrow> real \<Rightarrow> real \<Rightarrow> real \<Rightarrow> real \<Rightarrow> string
    \<Rightarrow> error + strips" where
  "add blocking st area x y w h zone =
     (let r = mk_rect (snap x) (snap y) (snap w) (snap h)
                (zone @ ''_'' @ str_nat (st_bid st)) zone
      in if list_ex (rects_overlap r) (blocking @ st_placed st) then Inl (Overlap_placing r)
         else if \<not> touches_corridor r MAIN_CORRIDORS then Inl (No_corridor_contact r)
         else Inr \<lparr>st_placed = st_placed st @ [r],
                   st_used = AList.update area (dict_get (st_used st) area 0 + 1) (st_used st),
                   st_bid = st_bid st + 1\<rparr>)"

text \<open>
  \<^verbatim>\<open>for _ in range(n): add(area, x, y, w, h, zone); x += w\<close>, the cursor \<open>x\<close> carried
  along with the state.  (The source writes the advance as the same literal as the width.)
\<close>

fun add_run :: "Rect list \<Rightarrow> nat \<Rightarrow> int \<Rightarrow> real \<Rightarrow> real \<Rightarrow> real \<Rightarrow> string
    \<Rightarrow> real \<times> strips \<Rightarrow> error + real \<times> strips" where
  "add_run blocking 0 area y w h zone (x, st) = Inr (x, st)"
| "add_run blocking (Suc n) area y w h zone (x, st) =
     (case add blocking st area x y w h zone of
        Inl e \<Rightarrow> Inl e
      | Inr st' \<Rightarrow> add_run blocking n area y w h zone (x + w, st'))"

definition strips_init :: strips where
  "strips_init = \<lparr>st_placed = [], st_used = [(30, 0), (18, 0), (15, 0), (12, 0)], st_bid = 1\<rparr>"

definition layout_outer_strips :: "Rect list \<Rightarrow> error + Rect list \<times> (int \<times> int) list" where
  "layout_outer_strips blocking =
     err_bind (add_run blocking 3 30 37 10 3 ''C'' (0, strips_init)) (\<lambda>(x, st).
     err_bind (add_run blocking 3 18 37 6 3 ''C'' (x, st)) (\<lambda>(x, st).
     err_bind (add_run blocking 1 30 37 10 3 ''D'' (52, st)) (\<lambda>(x, st).
     err_bind (add_run blocking 2 15 37 5 3 ''D'' (x, st)) (\<lambda>(x, st).
     err_bind (add_run blocking 2 12 37 4 3 ''D'' (x, st)) (\<lambda>(x, st).
     err_bind (add_run blocking 1 30 0 10 3 ''E'' (0, st)) (\<lambda>(x, st).
     err_bind (add_run blocking 2 18 0 6 3 ''E'' (x, st)) (\<lambda>(x, st).
     err_bind (add_run blocking 2 15 0 5 3 ''E'' (x, st)) (\<lambda>(x, st).
     err_bind (add_run blocking 3 12 0 4 3 ''E'' (x, st)) (\<lambda>(x, st).
     err_bind (add blocking st 12 52 0 4 3 ''F'') (\<lambda>st.
     Inr (st_placed st, st_used st)))))))))))"

section \<open>Candidate generator\<close>

text \<open>
  An edge dictionary: \<^verbatim>\<open>{"type": "v", "side": s, "x": x, "y0": y0, "y1": y1}\<close> or
  \<^verbatim>\<open>{"type": "h", "side": s, "y": y, "x0": x0, "x1": x1}\<close>.
\<close>

datatype edge =
    V_edge string real real real
  | H_edge string real real real

definition zone_bounds :: "string \<Rightarrow> bounds" where
  "zone_bounds zone = (if zone = ''A'' then ZONE_A else ZONE_B)"

text \<open>One pass of the loop body of \<^verbatim>\<open>corridor_edges_for_zone\<close>: the edges corridor \<open>c\<close> appends.\<close>

definition corridor_edges :: "string \<Rightarrow> Rect \<Rightarrow> edge list" where
  "corridor_edges zone c =
     (let zb = zone_bounds zone;
          x0 = rx c; x1 = rx c + rw c;
          y0 = ry c; y1 = ry c + rh c
      in if rlabel c = ''main_vertical'' then
           (if zone = ''A'' then [V_edge ''right'' x0 (by0 zb) (by1 zb)]
            else [V_edge ''left'' x1 (by0 zb) (by1 zb)])
         else if rlabel c = ''spur_A'' \<and> zone = ''A'' then
           [V_edge ''right'' x0 (max y0 (by0 zb)) (min y1 (by1 zb)),
            V_edge ''left'' x1 (max y0 (by0 zb)) (min y1 (by1 zb))]
         else if rlabel c = ''spur_B'' \<and> zone = ''B'' then
           [V_edge ''right'' x0 (max y0 (by0 zb)) (min y1 (by1 zb)),
            V_edge ''left'' x1 (max y0 (by0 zb)) (min y1 (by1 zb))]
         else if rlabel c = ''main_upper'' then
           [H_edge ''top'' y0 (max x0 (bx0 zb)) (min x1 (bx1 zb))]
         else if rlabel c = ''main_lower'' then
           [H_edge ''bottom'' y1 (max x0 (bx0 zb)) (min x1 (bx1 zb))]
         else if rlabel c = ''tertiary_mid'' then
           [H_edge ''top'' y0 (max x0 (bx0 zb)) (min x1 (bx1 zb)),
            H_edge ''bottom'' y1 (max x0 (bx0 zb)) (min x1 (bx1 zb))]
         else [])"

definition corridor_edges_for_zone :: "string \<Rightarrow> edge list" where
  "corridor_edges_for_zone zone = concat (map (corridor_edges zone) CORRIDORS)"

text \<open>
  The two \<^verbatim>\<open>while\<close> loops of \<^verbatim>\<open>generate_candidates\<close> have one shape: a cursor \<open>t\<close> runs
  from the start of the span in steps of \<open>STEP\<close> while \<open>t \<le> t_end + 1e-6\<close>, and the
  rectangle made at \<open>t\<close> is kept when it lies inside the zone.  \<open>mk\<close> is the rectangle
  the loop body builds at cursor \<open>t\<close>.
\<close>

function slide :: "(real \<Rightarrow> Rect) \<Rightarrow> bounds \<Rightarrow> real \<Rightarrow> real \<Rightarrow> Rect list" where
  "slide mk zb t t_end =
     (if t \<le> t_end + EPS
      then (if inside_zone (mk t) zb then [mk t] else []) @ slide mk zb (t + STEP) t_end
      else [])"
  by pat_completeness auto
termination
proof (relation "measure (\<lambda>(mk, zb, t, t_end). nat \<lfloor>t_end + EPS - t + 1\<rfloor>)")
  show "wf (measure (\<lambda>(mk :: real \<Rightarrow> Rect, zb :: bounds, t, t_end). nat \<lfloor>t_end + EPS - t + 1\<rfloor>))"
    by simp
next
  fix mk :: "real \<Rightarrow> Rect" and zb :: bounds and t t_end :: real
  assume le: "t \<le> t_end + EPS"
  define d where "d = t_end + EPS - t"
  have a: "t_end + EPS - (t + STEP) + 1 = d"
    unfolding STEP_def d_def by simp
  have b: "t_end + EPS - t + 1 = d + 1"
    unfolding d_def by simp
  from le have "0 \<le> d" unfolding d_def by simp
  then have "nat \<lfloor>d\<rfloor> < nat \<lfloor>d + 1\<rfloor>" by linarith
  then show "((mk, zb, t + STEP, t_end), mk, zb, t, t_end)
      \<in> measure (\<lambda>(mk, zb, t, t_end). nat \<lfloor>t_end + EPS - t + 1\<rfloor>)"
    by (simp only: in_measure prod.case a b)
qed

declare slide.simps [simp del]

fun edge_candidates :: "real \<Rightarrow> real \<Rightarrow> string \<Rightarrow> bounds \<Rightarrow> edge \<Rightarrow> Rect list" where
  "edge_candidates w h zone zb (V_edge side ex y0 y1) =
     (let x = (if side = ''right'' then ex - w else ex)
      in slide (\<lambda>y. mk_rect (snap x) (snap y) w h '''' zone) zb y0 (y1 - h))"
| "edge_candidates w h zone zb (H_edge side ey x0 x1) =
     (let y = (if side = ''top'' then ey - h else ey)
      in slide (\<lambda>x. mk_rect (snap x) (snap y) w h '''' zone) zb x0 (x1 - w))"

text \<open>The body of the loop over shapes; the aspect test divides, so a zero side raises.\<close>

definition shape_candidates :: "string \<Rightarrow> real \<times> real \<Rightarrow> error + Rect list" where
  "shape_candidates zone s =
     (let w = snap (fst s); h = snap (snd s)
      in if min w h = 0 then Inl ZeroDivisionError
         else if max w h / min w h > 4.0001 then Inr []
         else Inr (concat (map (edge_candidates w h zone (zone_bounds zone))
                               (corridor_edges_for_zone zone))))"

fun shapes_candidates :: "string \<Rightarrow> (real \<times> real) list \<Rightarrow> error + Rect list" where
  "shapes_candidates zone [] = Inr []"
| "shapes_candidates zone (s # ss) =
     (case shape_candidates zone s of
        Inl e \<Rightarrow> Inl e
      | Inr cs \<Rightarrow> (case shapes_candidates zone ss of
                     Inl e \<Rightarrow> Inl e
                   | Inr ds \<Rightarrow> Inr (cs @ ds)))"

definition rect_key :: "Rect \<Rightarrow> real \<times> real \<times> real \<times> real" where
  "rect_key r = (rx r, ry r, rw r, rh r)"

text \<open>\<^verbatim>\<open>uniq = {}; for r in candidates: uniq[key] = r\<close>, then \<^verbatim>\<open>uniq.values()\<close>.\<close>

definition uniq_values :: "Rect list \<Rightarrow> Rect list" where
  "uniq_values candidates = map snd (foldl (\<lambda>uniq r. AList.update (rect_key r) r uniq) [] candidates)"

definition dist :: "Rect \<Rightarrow> real" where
  "dist r = (let cx = rx r + rw r / 2; cy = ry r + rh r / 2 in (cx - 50)\<^sup>2 + (cy - 40)\<^sup>2)"

text \<open>\<^verbatim>\<open>sorted\<close> is stable, as is insertion sort by key.\<close>

definition generate_candidates :: "int \<Rightarrow> string \<Rightarrow> error + Rect list" where
  "generate_candidates area zone =
     (case map_of SHAPES area of
        None \<Rightarrow> Inl KeyError
      | Some shapes \<Rightarrow>
          (case shapes_candidates zone shapes of
             Inl e \<Rightarrow> Inl e
           | Inr candidates \<Rightarrow> Inr (take 400 (sort_key dist (uniq_values candidates)))))"

section \<open>Greedy allocator\<close>

text \<open>
  The innermost loop: the first candidate that overlaps nothing in \<^verbatim>\<open>placed + blocking\<close>
  and touches a corridor, if there is one.
\<close>

fun first_fit :: "Rect list \<Rightarrow> Rect list \<Rightarrow> Rect list \<Rightarrow> Rect option" where
  "first_fit [] placed blocking = None"
| "first_fit (cand # cands) placed blocking =
     (if list_ex (rects_overlap cand) (placed @ blocking) then first_fit cands placed blocking
      else if \<not> touches_corridor cand CORRIDORS then first_fit cands placed blocking
      else Some cand)"

type_synonym cache = "int \<times> string \<rightharpoonup> Rect list"

text \<open>
  The loop over the zones for one area: the extended \<^verbatim>\<open>placed\<close> list when a candidate was
  accepted, \<open>None\<close> when \<^verbatim>\<open>placed_flag\<close> stays false.  A missing cache entry raises.
\<close>

fun try_zones :: "cache \<Rightarrow> Rect list \<Rightarrow> int \<Rightarrow> Rect list \<Rightarrow> string list
    \<Rightarrow> error + Rect list option" where
  "try_zones candidates_cache blocking area placed [] = Inr None"
| "try_zones candidates_cache blocking area placed (zone # zones) =
     (case candidates_cache (area, zone) of
        None \<Rightarrow> Inl KeyError
      | Some cands \<Rightarrow>
          (case first_fit cands placed blocking of
             Some cand \<Rightarrow>
               Inr (Some (placed @
                 [cand\<lparr>rlabel := zone @ ''_'' @
                          str_nat (length (filter (\<lambda>p. rzone p = zone) placed) + 1),
                       rzone := zone\<rparr>]))
           | None \<Rightarrow> try_zones candidates_cache blocking area placed zones))"

fun greedy_loop :: "cache \<Rightarrow> Rect list \<Rightarrow> int list \<Rightarrow> Rect list \<times> int list
    \<Rightarrow> error + Rect list \<times> int list" where
  "greedy_loop candidates_cache blocking [] (placed, skipped) = Inr (placed, skipped)"
| "greedy_loop candidates_cache blocking (area # rest) (placed, skipped) =
     (case try_zones candidates_cache blocking area placed [''A'', ''B''] of
        Inl e \<Rightarrow> Inl e
      | Inr (Some placed') \<Rightarrow> greedy_loop candidates_cache blocking rest (placed', skipped)
      | Inr None \<Rightarrow> greedy_loop candidates_cache blocking rest (placed, skipped @ [area]))"

definition greedy_place_with_skips :: "int list \<Rightarrow> cache \<Rightarrow> Rect list
    \<Rightarrow> error + Rect list \<times> int list" where
  "greedy_place_with_skips place_order candidates_cache blocking =
     greedy_loop candidates_cache blocking place_order ([], [])"

section \<open>The computation of main\<close>

text \<open>\<^verbatim>\<open>for a, c in used_outer.items(): remaining[a] -= c\<close>; a key absent from the inventory raises.\<close>

fun subtract_used :: "(int \<times> int) list \<Rightarrow> (int \<times> int) list \<Rightarrow> error + (int \<times> int) list" where
  "subtract_used remaining [] = Inr remaining"
| "subtract_used remaining ((a, c) # used) =
     (case map_of remaining a of
        None \<Rightarrow> Inl KeyError
      | Some n \<Rightarrow> subtract_used (AList.update a (n - c) remaining) used)"

text \<open>
  The placement order: the sizes in descending order, each repeated by its count
  (\<^verbatim>\<open>[a] * c\<close> is empty for \<open>c \<le> 0\<close>).  The keys of a dictionary are distinct, so the
  descending stable sort is the reverse of the ascending one.
\<close>

definition build_place_order :: "(int \<times> int) list \<Rightarrow> int list" where
  "build_place_order remaining =
     concat (map (\<lambda>(a, c). replicate (nat c) a) (rev (sort_key fst remaining)))"

text \<open>
  The loop that fills the cache, over the areas in the order the set yields them and the
  zones A, B.  The candidate generator is a parameter of the loop, so that the loop's own
  exception can be told from the generator's.
\<close>

fun fill_zones :: "(int \<Rightarrow> string \<Rightarrow> error + Rect list) \<Rightarrow> int \<Rightarrow> string list \<Rightarrow> cache
    \<Rightarrow> error + cache" where
  "fill_zones gen a [] candidates_cache = Inr candidates_cache"
| "fill_zones gen a (z # zs) candidates_cache =
     (case gen a z of
        Inl e \<Rightarrow> Inl e
      | Inr cands \<Rightarrow>
          if cands = [] then Inl (No_candidates a z)
          else fill_zones gen a zs (candidates_cache((a, z) \<mapsto> cands)))"

fun fill_cache :: "(int \<Rightarrow> string \<Rightarrow> error + Rect list) \<Rightarrow> int list \<Rightarrow> cache \<Rightarrow> error + cache" where
  "fill_cache gen [] candidates_cache = Inr candidates_cache"
| "fill_cache gen (a # as) candidates_cache =
     (case fill_zones gen a [''A'', ''B''] candidates_cache of
        Inl e \<Rightarrow> Inl e
      | Inr c \<Rightarrow> fill_cache gen as c)"

text \<open>
  \<^verbatim>\<open>main\<close> up to the rendering: the outer booths, the inner booths and the skip list.
  The set \<^verbatim>\<open>set(place_order)\<close> is enumerated without repetition in the order of first
  occurrence; the order only decides which empty pair would be reported first.
\<close>

definition main_plan :: "error + Rect list \<times> Rect list \<times> int list" where
  "main_plan =
     err_bind (layout_outer_strips CORRIDORS) (\<lambda>(outer_booths, used_outer).
     err_bind (subtract_used INVENTORY used_outer) (\<lambda>remaining.
       let blocking = CORRIDORS @ outer_booths;
           place_order = build_place_order remaining
       in
     err_bind (fill_cache generate_candidates (remdups place_order) Map.empty) (\<lambda>candidates_cache.
     err_bind (greedy_place_with_skips place_order candidates_cache blocking) (\<lambda>(placed_inner, skipped).
     Inr (outer_booths, placed_inner, skipped)))))"

section \<open>What main writes to the image\<close>

text \<open>
  The geometry \<^verbatim>\<open>svg_rect\<close> prints for a rectangle: x, the flipped y, width and height.
  Printing a float and reading it back gives the same float.
\<close>

definition svg_rect_geom :: "Rect \<Rightarrow> real \<times> real \<times> real \<times> real" where
  "svg_rect_geom r = (rx r, HALL_H - ry r - rh r, rw r, rh r)"

section \<open>The validator, validate\_plan.py\<close>

text \<open>
  An element of the parsed image: its tag, and the four numbers \<^verbatim>\<open>float\<close> makes of the
  attributes x, y, width and height (0 for an absent attribute), or \<open>None\<close> when one
  of the conversions raises \<^verbatim>\<open>ValueError\<close>.
\<close>

record svg_elem =
  el_tag :: string
  el_geom :: "(real \<times> real \<times> real \<times> real) option"

text \<open>The dictionary \<^verbatim>\<open>{'x': x, 'y': y, 'w': w, 'h': h, 'area': w * h}\<close>.\<close>

record booth =
  b_x :: real
  b_y :: real
  b_w :: real
  b_h :: real
  b_area :: real

definition is_hall :: "real \<Rightarrow> real \<Rightarrow> bool" where
  "is_hall w h = (\<bar>w - 80\<bar> < 0.1 \<and> \<bar>h - 40\<bar> < 0.1)"

definition is_corridor :: "real \<Rightarrow> real \<Rightarrow> bool" where
  "is_corridor w h = ((\<bar>w - 4\<bar> < 0.1 \<and> h > 10) \<or> (\<bar>h - 4\<bar> < 0.1 \<and> w > 10))"

fun parse_elems :: "svg_elem list \<Rightarrow> booth list" where
  "parse_elems [] = []"
| "parse_elems (e # es) =
     (if sublist ''rect'' (el_tag e) then
        (case el_geom e of
           None \<Rightarrow> parse_elems es
         | Some (x, y, w, h) \<Rightarrow>
             if is_hall w h then parse_elems es
             else if is_corridor w h then parse_elems es
             else \<lparr>b_x = x, b_y = y, b_w = w, b_h = h, b_area = w * h\<rparr> # parse_elems es)
      else parse_elems es)"

text \<open>The argument is \<open>None\<close> when the file does not parse: the function then returns no rectangle.\<close>

definition parse_svg_rects :: "svg_elem list option \<Rightarrow> booth list" where
  "parse_svg_rects doc = (case doc of None \<Rightarrow> [] | Some elems \<Rightarrow> parse_elems elems)"

text \<open>The error messages, by the check that appends them and the values they print.\<close>

datatype verror =
    Side_too_short real real real
  | Aspect_violation real real
  | Top_zone_height real real real
  | Bottom_zone_height real real real
  | Inventory_mismatch int int int

definition required_inventory :: "(int \<times> int) list" where
  "required_inventory =
     [(200, 1), (100, 2), (90, 2), (80, 2), (60, 4), (48, 4), (40, 4),
      (30, 5), (20, 5), (18, 5), (15, 4), (12, 6)]"

text \<open>The body of the loop over the booths, on the pair of \<^verbatim>\<open>errors\<close> and \<^verbatim>\<open>found_inventory\<close>.\<close>

definition check_booth :: "verror list \<times> (int \<times> int) list \<Rightarrow> booth \<Rightarrow> verror list \<times> (int \<times> int) list" where
  "check_booth s b =
     (let errors = fst s; found_inventory = snd s;
          area = py_round (b_area b);
          longer = max (b_w b) (b_h b);
          shorter = min (b_w b) (b_h b);
          e1 = (if shorter < 3.0 - 0.01 then [Side_too_short (b_x b) (b_y b) shorter] else []);
          e2 = (if shorter > 0 \<and> longer / shorter > 4.01 then [Aspect_violation (b_x b) (b_y b)] else []);
          found_inventory' = AList.update area (dict_get found_inventory area 0 + 1) found_inventory;
          e3 = (if b_y b \<ge> 37 then
                  (if b_h b > 3.01 then [Top_zone_height (b_x b) (b_y b) (b_h b)] else [])
                else []);
          e4 = (if b_y b + b_h b \<le> 3 then
                  (if b_h b > 3.01 then [Bottom_zone_height (b_x b) (b_y b) (b_h b)] else [])
                else [])
      in (errors @ e1 @ e2 @ e3 @ e4, found_inventory'))"

text \<open>The loop over \<^verbatim>\<open>required_inventory.items()\<close>.\<close>

fun check_inventory :: "(int \<times> int) list \<Rightarrow> (int \<times> int) list \<Rightarrow> verror list" where
  "check_inventory found_inventory [] = []"
| "check_inventory found_inventory ((sz, cnt) # rest) =
     (let found = dict_get found_inventory sz 0
      in (if found \<noteq> cnt then [Inventory_mismatch sz cnt found] else []) @
         check_inventory found_inventory rest)"

definition validation_errors :: "booth list \<Rightarrow> verror list" where
  "validation_errors booths =
     (let s = foldl check_booth ([], []) booths
      in fst s @ check_inventory (snd s) required_inventory)"

text \<open>
  \<^verbatim>\<open>validate_plan\<close>: \<open>file_exists\<close> is the answer of \<^verbatim>\<open>os.path.exists\<close>, \<open>doc\<close> the parsed
  file as above.
\<close>

definition validate_plan :: "bool \<Rightarrow> svg_elem list option \<Rightarrow> bool" where
  "validate_plan file_exists doc =
     (if \<not> file_exists then False
      else validation_errors (parse_svg_rects doc) = [])"

section \<open>Spec-side notions used to compare with the code\<close>

text \<open>The open interior of a rectangle, as a predicate on points.\<close>

definition interior :: "Rect \<Rightarrow> real \<Rightarrow> real \<Rightarrow> bool" where
  "interior r p q = (rx r < p \<and> p < rx r + rw r \<and> ry r < q \<and> q < ry r + rh r)"

text \<open>
  The spec's reading of corridor contact: an entire side of \<open>r\<close> lies along an edge of
  the corridor \<open>c\<close>, that is, the edges coincide within the tolerance and the side's span is
  contained in the corridor's span (within the tolerance).
\<close>

definition full_side_contact :: "Rect \<Rightarrow> Rect \<Rightarrow> bool" where
  "full_side_contact r c =
     (((isclose (rx r + rw r) (rx c) EPS \<or> isclose (rx c + rw c) (rx r) EPS) \<and>
       ry c - EPS \<le> ry r \<and> ry r + rh r \<le> ry c + rh c + EPS) \<or>
      ((isclose (ry r + rh r) (ry c) EPS \<or> isclose (ry c + rh c) (ry r) EPS) \<and>
       rx c - EPS \<le> rx r \<and> rx r + rw r \<le> rx c + rw c + EPS))"

text \<open>The number of rectangles in a list whose area \<open>w * h\<close> is the given size.\<close>

definition count_area :: "Rect list \<Rightarrow> int \<Rightarrow> nat" where
  "count_area rs a = length (filter (\<lambda>r. rw r * rh r = of_int a) rs)"

text \<open>The number of booths of the validator whose rounded area is the given size.\<close>

definition count_rounded :: "booth list \<Rightarrow> int \<Rightarrow> int" where
  "count_rounded bs a = int (length (filter (\<lambda>b. py_round (b_area b) = a) bs))"

text \<open>No two entries of a list, at different positions, overlap.\<close>

fun pairwise_disjoint :: "Rect list \<Rightarrow> bool" where
  "pairwise_disjoint [] = True"
| "pairwise_disjoint (r # rs) = (\<not> list_ex (rects_overlap r) rs \<and> pairwise_disjoint rs)"


text \<open>
  The twenty rectangles the hand-ordered sequence of the outer-strip placer lays along the
  strips C, D, E and F, with the labels it gives them.
\<close>

definition outer_expected :: "Rect list" where
  "outer_expected =
     [mk_rect 0 37 10 3 ''C_1'' ''C'',
      mk_rect 10 37 10 3 ''C_2'' ''C'',
      mk_rect 20 37 10 3 ''C_3'' ''C'',
      mk_rect 30 37 6 3 ''C_4'' ''C'',
      mk_rect 36 37 6 3 ''C_5'' ''C'',
      mk_rect 42 37 6 3 ''C_6'' ''C'',
      mk_rect 52 37 10 3 ''D_7'' ''D'',
      mk_rect 62 37 5 3 ''D_8'' ''D'',
      mk_rect 67 37 5 3 ''D_9'' ''D'',
      mk_rect 72 37 4 3 ''D_10'' ''D'',
      mk_rect 76 37 4 3 ''D_11'' ''D'',
      mk_rect 0 0 10 3 ''E_12'' ''E'',
      mk_rect 10 0 6 3 ''E_13'' ''E'',
      mk_rect 16 0 6 3 ''E_14'' ''E'',
      mk_rect 22 0 5 3 ''E_15'' ''E'',
      mk_rect 27 0 5 3 ''E_16'' ''E'',
      mk_rect 32 0 4 3 ''E_17'' ''E'',
      mk_rect 36 0 4 3 ''E_18'' ''E'',
      mk_rect 40 0 4 3 ''E_19'' ''E'',
      mk_rect 52 0 4 3 ''F_20'' ''F'']"

text \<open>
  What the allocator has checked of a rectangle \<open>r\<close> when it accepts it with the list
  \<open>before\<close> already placed: no overlap with that list or the blocking list, and contact
  with a corridor.
\<close>

definition accepted :: "Rect list \<Rightarrow> Rect list \<Rightarrow> Rect \<Rightarrow> bool" where
  "accepted blocking before r =
     (\<not> list_ex (rects_overlap r) (before @ blocking) \<and> touches_corridor r CORRIDORS)"

text \<open>Every entry of \<open>placed\<close> was accepted against the entries before it.\<close>

definition placed_ok :: "Rect list \<Rightarrow> Rect list \<Rightarrow> bool" where
  "placed_ok blocking placed =
     (\<forall>i < length placed. accepted blocking (take i placed) (placed ! i))"

text \<open>
  The cache has an entry for every area of the placement order in both zones; and the
  candidates it holds for an area have that area.
\<close>

definition cache_complete :: "cache \<Rightarrow> int list \<Rightarrow> bool" where
  "cache_complete candidates_cache place_order =
     (\<forall>a \<in> set place_order. \<forall>z \<in> set [''A'', ''B'']. candidates_cache (a, z) \<noteq> None)"

definition cache_areas :: "cache \<Rightarrow> int list \<Rightarrow> bool" where
  "cache_areas candidates_cache place_order =
     (\<forall>a \<in> set place_order. \<forall>z \<in> set [''A'', ''B'']. \<forall>c.
        candidates_cache (a, z) = Some c \<longrightarrow> (\<forall>cand \<in> set c. rw cand * rh cand = of_int a))"


text \<open>
  A rendering of the generator's whole inventory with nothing skipped: for every size as
  many rectangles as the inventory counts, each size-by-one units large.
\<close>

definition full_inventory_elems :: "svg_elem list" where
  "full_inventory_elems =
     concat (map (\<lambda>(sz, cnt). replicate (nat cnt)
       \<lparr>el_tag = ''rect'', el_geom = Some (0, 10, of_int sz, 1)\<rparr>) INVENTORY)"

text \<open>The element \<^verbatim>\<open>main\<close> writes for a rectangle; the tag carries the SVG namespace.\<close>

definition svg_elem_of :: "Rect \<Rightarrow> svg_elem" where
  "svg_elem_of r = \<lparr>el_tag = ''{http://www.w3.org/2000/svg}rect'', el_geom = Some (svg_rect_geom r)\<rparr>"

definition booth_of :: "real \<times> real \<times> real \<times> real \<Rightarrow> booth" where
  "booth_of g = (case g of (x, y, w, h) \<Rightarrow> \<lparr>b_x = x, b_y = y, b_w = w, b_h = h, b_area = w * h\<rparr>)"



section \<open>Properties of the geometry kernel\<close>

lemma py_round_near: "\<bar>of_int (py_round q) - q\<bar> \<le> 1 / 2"
  unfolding py_round_def Let_def by (simp; linarith)

lemma py_round_nearest: "\<bar>of_int (py_round q) - q\<bar> \<le> \<bar>of_int k - q\<bar>"
proof (cases "k \<le> \<lfloor>q\<rfloor>")
  case True
  then have "of_int k \<le> (of_int \<lfloor>q\<rfloor> :: real)" by simp
  then have "\<bar>of_int k - q\<bar> \<ge> q - of_int \<lfloor>q\<rfloor>" by linarith
  then show ?thesis
    unfolding py_round_def Let_def by (simp; linarith)
next
  case False
  then have "\<lfloor>q\<rfloor> + 1 \<le> k" by simp
  then have "of_int (\<lfloor>q\<rfloor> + 1) \<le> (of_int k :: real)" by (simp only: of_int_le_iff)
  then have "\<bar>of_int k - q\<bar> \<ge> of_int \<lfloor>q\<rfloor> + 1 - q" by simp
  then show ?thesis
    unfolding py_round_def Let_def by (simp; linarith)
qed

subsection \<open>snap\<close>

text \<open>
  Claim C8.  For every real \<open>v\<close>, \<open>snap v\<close> is an integer multiple of the grid resolution
  0.25, it differs from \<open>v\<close> by at most 0.125, and no multiple of 0.25 is nearer to \<open>v\<close>
  (so a half-way input goes to one of its two equally near multiples).  \<open>snap\<close> is a
  function of \<open>v\<close> alone.
\<close>

theorem snap_nearest_grid_multiple:
  "(\<exists>k::int. snap v = of_int k * GRID) \<and>
   \<bar>snap v - v\<bar> \<le> 0.125 \<and>
   (\<forall>k::int. \<bar>snap v - v\<bar> \<le> \<bar>of_int k * GRID - v\<bar>)"
proof -
  have scale: "\<bar>of_int n * GRID - v\<bar> = \<bar>of_int n - v / GRID\<bar> / 4" for n :: int
    unfolding GRID_def by (simp add: abs_if field_simps)
  have a: "\<exists>k::int. snap v = of_int k * GRID"
    unfolding snap_def by blast
  have b: "\<bar>snap v - v\<bar> \<le> 0.125"
    using py_round_near [of "v / GRID"] unfolding snap_def scale by simp
  have c: "\<bar>snap v - v\<bar> \<le> \<bar>of_int k * GRID - v\<bar>" for k :: int
    using py_round_nearest [of "v / GRID" k] unfolding snap_def scale by simp
  from a b c show ?thesis by blast
qed

subsection \<open>rects\_overlap\<close>

lemma rects_overlap_sym: "rects_overlap r1 r2 = rects_overlap r2 r1"
  unfolding rects_overlap_def by auto

lemma rects_overlap_interior:
  assumes "0 < rw r1" "0 < rh r1" "0 < rw r2" "0 < rh r2"
  shows "rects_overlap r1 r2 \<longleftrightarrow> (\<exists>p q. interior r1 p q \<and> interior r2 p q)"
proof
  assume ov: "rects_overlap r1 r2"
  define p where "p = (max (rx r1) (rx r2) + min (rx r1 + rw r1) (rx r2 + rw r2)) / 2"
  define q where "q = (max (ry r1) (ry r2) + min (ry r1 + rh r1) (ry r2 + rh r2)) / 2"
  from ov assms have "interior r1 p q \<and> interior r2 p q"
    unfolding rects_overlap_def interior_def p_def q_def by (auto simp: max_def min_def)
  then show "\<exists>p q. interior r1 p q \<and> interior r2 p q" by blast
next
  assume "\<exists>p q. interior r1 p q \<and> interior r2 p q"
  then show "rects_overlap r1 r2"
    unfolding rects_overlap_def interior_def by auto
qed

text \<open>
  Claim C7 as stated (symmetric, never true of a rectangle and itself, true exactly when
  the open interiors meet) fails: the unit square overlaps itself.
\<close>

theorem rects_overlap_reflexive_false_counterexample:
  "\<not> (\<forall>r. \<not> rects_overlap r r)"
proof
  assume "\<forall>r. \<not> rects_overlap r r"
  then have "\<not> rects_overlap (mk_rect 0 0 1 1 '''' '''') (mk_rect 0 0 1 1 '''' '''')" by blast
  then show False by (simp add: rects_overlap_def mk_rect_def)
qed

text \<open>
  Claim C7, amended.  \<open>rects_overlap\<close> is symmetric; for two rectangles of positive width
  and height it is true exactly when their open interiors share a point, so rectangles
  that touch only along a boundary do not overlap; and \<open>rects_overlap r r\<close> is true
  exactly when \<open>r\<close> has positive width and height.
\<close>

theorem rects_overlap_characterisation:
  "rects_overlap r1 r2 = rects_overlap r2 r1 \<and>
   (0 < rw r1 \<and> 0 < rh r1 \<and> 0 < rw r2 \<and> 0 < rh r2 \<longrightarrow>
      (rects_overlap r1 r2 \<longleftrightarrow> (\<exists>p q. interior r1 p q \<and> interior r2 p q))) \<and>
   (rx r1 + rw r1 = rx r2 \<or> ry r1 + rh r1 = ry r2 \<longrightarrow> \<not> rects_overlap r1 r2) \<and>
   (rects_overlap r1 r1 \<longleftrightarrow> 0 < rw r1 \<and> 0 < rh r1)"
proof -
  have "rects_overlap r1 r1 \<longleftrightarrow> 0 < rw r1 \<and> 0 < rh r1"
    unfolding rects_overlap_def by auto
  moreover have "rx r1 + rw r1 = rx r2 \<or> ry r1 + rh r1 = ry r2 \<longrightarrow> \<not> rects_overlap r1 r2"
    unfolding rects_overlap_def by auto
  ultimately show ?thesis
    using rects_overlap_sym [of r1 r2] rects_overlap_interior [of r1 r2] by blast
qed

theorem rects_overlap_characterisation_witness:
  "rects_overlap (mk_rect 0 0 2 2 '''' '''') (mk_rect 1 1 2 2 '''' '''') \<and>
   (\<exists>p q. interior (mk_rect 0 0 2 2 '''' '''') p q \<and> interior (mk_rect 1 1 2 2 '''' '''') p q) \<and>
   \<not> rects_overlap (mk_rect 0 0 2 2 '''' '''') (mk_rect 2 0 2 2 '''' '''') \<and>
   rects_overlap (mk_rect 0 0 2 2 '''' '''') (mk_rect 0 0 2 2 '''' '''')"
proof -
  have ov: "rects_overlap (mk_rect 0 0 2 2 '''' '''') (mk_rect 1 1 2 2 '''' '''')"
    by (simp add: rects_overlap_def mk_rect_def)
  have pos: "0 < rw (mk_rect 0 0 2 2 '''' '''') \<and> 0 < rh (mk_rect 0 0 2 2 '''' '''') \<and>
             0 < rw (mk_rect 1 1 2 2 '''' '''') \<and> 0 < rh (mk_rect 1 1 2 2 '''' '''')"
    by (simp add: mk_rect_def)
  have touch: "rx (mk_rect 0 0 2 2 '''' '''') + rw (mk_rect 0 0 2 2 '''' '''') =
               rx (mk_rect 2 0 2 2 '''' '''')"
    by (simp add: mk_rect_def)
  from rects_overlap_characterisation [of "mk_rect 0 0 2 2 '''' ''''" "mk_rect 1 1 2 2 '''' ''''"] ov pos
  have "\<exists>p q. interior (mk_rect 0 0 2 2 '''' '''') p q \<and> interior (mk_rect 1 1 2 2 '''' '''') p q"
    by blast
  moreover from rects_overlap_characterisation [of "mk_rect 0 0 2 2 '''' ''''" "mk_rect 2 0 2 2 '''' ''''"] touch
  have "\<not> rects_overlap (mk_rect 0 0 2 2 '''' '''') (mk_rect 2 0 2 2 '''' '''')"
    by blast
  moreover from rects_overlap_characterisation [of "mk_rect 0 0 2 2 '''' ''''" "mk_rect 1 1 2 2 '''' ''''"] pos
  have "rects_overlap (mk_rect 0 0 2 2 '''' '''') (mk_rect 0 0 2 2 '''' '''')"
    by blast
  ultimately show ?thesis using ov by blast
qed

subsection \<open>touches\_corridor\<close>

lemma touches_corridor_iff:
  "touches_corridor r cs \<longleftrightarrow> (\<exists>c \<in> set cs. contact_lr r c \<or> contact_tb r c)"
  by (induction cs) auto

section \<open>The outer-strip placer on the fixed corridors\<close>

lemma py_round_of_int: "py_round (of_int k) = k"
  by (simp add: py_round_def)

lemma snap_of_int: "snap (of_int k) = of_int k"
proof -
  have "of_int k / GRID = (of_int (4 * k) :: real)" by (simp add: GRID_def)
  then have "py_round (of_int k / GRID) = 4 * k" by (simp only: py_round_of_int)
  then show ?thesis unfolding snap_def by (simp add: GRID_def)
qed

lemma snap_numeral: "snap (numeral n) = numeral n"
  using snap_of_int [of "numeral n"] by simp

lemma snap_zero: "snap 0 = 0"
  using snap_of_int [of 0] by simp

lemma add_run_unfold:
  "add_run blocking n area y w h zone (x, st) =
     (if n = 0 then Inr (x, st)
      else case add blocking st area x y w h zone of
             Inl e \<Rightarrow> Inl e
           | Inr st' \<Rightarrow> add_run blocking (n - 1) area y w h zone (x + w, st'))"
  by (cases n) (simp_all split: sum.splits)

lemmas geometry_eval = snap_numeral snap_zero mk_rect_def
  rects_overlap_def contact_lr_def contact_tb_def isclose_def EPS_def rel_tol_def
  CORRIDORS_def MAIN_CORRIDORS_def SECONDARY_CORRIDORS_def TERTIARY_CORRIDORS_def

lemma outer_expected_contact:
  "list_all (\<lambda>r. touches_corridor r MAIN_CORRIDORS \<and> \<not> list_ex (rects_overlap r) CORRIDORS)
     outer_expected"
  by (simp add: geometry_eval outer_expected_def)

lemma outer_expected_disjoint: "pairwise_disjoint outer_expected"
  by (simp add: geometry_eval outer_expected_def)

lemma layout_outer_strips_value:
  "layout_outer_strips CORRIDORS = Inr (outer_expected, [(30, 5), (18, 5), (15, 4), (12, 6)])"
  by (simp add: layout_outer_strips_def err_bind_def add_run_unfold add_def Let_def geometry_eval
      strips_init_def dict_get_def outer_expected_def str_nat.simps)

text \<open>
  Claim C4.  On the fixed corridor list \<open>layout_outer_strips\<close> raises nothing and returns
  twenty rectangles with the consumption 30: 5, 18: 5, 15: 4, 12: 6; each of them touches a
  main corridor and overlaps no corridor, and no two of them overlap.
\<close>

theorem layout_outer_strips_on_corridors:
  "layout_outer_strips CORRIDORS = Inr (outer_expected, [(30, 5), (18, 5), (15, 4), (12, 6)]) \<and>
   length outer_expected = 20 \<and>
   list_all (\<lambda>r. touches_corridor r MAIN_CORRIDORS \<and> \<not> list_ex (rects_overlap r) CORRIDORS)
     outer_expected \<and>
   pairwise_disjoint outer_expected"
proof -
  have "length outer_expected = 20" by (simp add: outer_expected_def)
  with layout_outer_strips_value outer_expected_contact outer_expected_disjoint
  show ?thesis by blast
qed

section \<open>The greedy allocator\<close>

lemma list_ex_iff_set: "list_ex P xs \<longleftrightarrow> (\<exists>x \<in> set xs. P x)"
  by (induction xs) auto

lemma pairwise_disjoint_snoc:
  "pairwise_disjoint (rs @ [r]) \<longleftrightarrow> pairwise_disjoint rs \<and> \<not> list_ex (rects_overlap r) rs"
  by (induction rs) (auto simp: list_ex_iff_set rects_overlap_sym)

lemma pairwise_disjoint_nth:
  "pairwise_disjoint rs \<Longrightarrow> i < j \<Longrightarrow> j < length rs \<Longrightarrow> \<not> rects_overlap (rs ! i) (rs ! j)"
proof (induction rs arbitrary: i j)
  case Nil
  then show ?case by simp
next
  case (Cons r rs)
  show ?case
  proof (cases i)
    case 0
    with Cons.prems have "rs ! (j - 1) \<in> set rs" by simp
    with Cons.prems 0 show ?thesis by (auto simp: list_ex_iff_set)
  next
    case (Suc k)
    with Cons.prems have "k < j - 1" "j - 1 < length rs" by auto
    with Cons.prems Cons.IH [of k "j - 1"] Suc show ?thesis by (cases j) auto
  qed
qed

text \<open>The geometric tests read only the four coordinates of a rectangle.\<close>

lemma rects_overlap_relabel [simp]:
  "rects_overlap (c\<lparr>rlabel := l, rzone := z\<rparr>) = rects_overlap c"
  by (rule ext) (simp add: rects_overlap_def)

lemma touches_corridor_relabel [simp]:
  "touches_corridor (c\<lparr>rlabel := l, rzone := z\<rparr>) cs = touches_corridor c cs"
  by (induction cs) (simp_all add: contact_lr_def contact_tb_def)

lemma first_fit_Some:
  "first_fit cands placed blocking = Some c \<Longrightarrow>
     c \<in> set cands \<and> \<not> list_ex (rects_overlap c) (placed @ blocking) \<and>
     touches_corridor c CORRIDORS"
  by (induction cands) (auto split: if_splits)


lemma try_zones_Some:
  "try_zones cache blocking area placed zones = Inr (Some placed') \<Longrightarrow>
     \<exists>r z c. placed' = placed @ [r] \<and> accepted blocking placed r \<and>
       z \<in> set zones \<and> cache (area, z) = Some c \<and>
       (\<exists>cand \<in> set c. rw r = rw cand \<and> rh r = rh cand)"
proof (induction zones)
  case Nil
  then show ?case by simp
next
  case (Cons zone zones)
  from Cons.prems obtain cands where c: "cache (area, zone) = Some cands"
    by (auto split: option.splits)
  show ?case
  proof (cases "first_fit cands placed blocking")
    case None
    with Cons c show ?thesis by auto
  next
    case (Some cand)
    define r where "r = cand\<lparr>rlabel := zone @ ''_'' @
        str_nat (length (filter (\<lambda>p. rzone p = zone) placed) + 1), rzone := zone\<rparr>"
    from Cons.prems c Some have p: "placed' = placed @ [r]"
      by (simp add: r_def)
    from first_fit_Some [OF Some] have "accepted blocking placed r"
      by (simp add: accepted_def r_def)
    moreover from first_fit_Some [OF Some] have "\<exists>cand \<in> set cands. rw r = rw cand \<and> rh r = rh cand"
      by (auto simp: r_def)
    ultimately show ?thesis using p c by auto
  qed
qed

lemma try_zones_None:
  "try_zones cache blocking area placed zones = Inr None \<Longrightarrow> z \<in> set zones \<Longrightarrow>
     \<exists>c. cache (area, z) = Some c \<and> first_fit c placed blocking = None"
  by (induction zones) (auto split: option.splits)

lemma try_zones_total:
  "\<forall>z \<in> set zones. cache (area, z) \<noteq> None \<Longrightarrow>
     \<exists>res. try_zones cache blocking area placed zones = Inr res"
  by (induction zones) (auto split: option.splits)

lemma placed_ok_snoc:
  assumes "placed_ok blocking placed" "accepted blocking placed r"
  shows "placed_ok blocking (placed @ [r])"
  unfolding placed_ok_def
proof (intro allI impI)
  fix i assume "i < length (placed @ [r])"
  then consider "i < length placed" | "i = length placed" by fastforce
  then show "accepted blocking (take i (placed @ [r])) ((placed @ [r]) ! i)"
  proof cases
    case 1
    with assms(1) show ?thesis by (simp add: placed_ok_def nth_append)
  next
    case 2
    with assms(2) show ?thesis by simp
  qed
qed

lemma greedy_loop_placed_ok:
  "greedy_loop cache blocking order (placed, skipped) = Inr (placed', skipped') \<Longrightarrow>
     placed_ok blocking placed \<Longrightarrow> placed_ok blocking placed'"
proof (induction order arbitrary: placed skipped)
  case Nil
  then show ?case by simp
next
  case (Cons area rest)
  show ?case
  proof (cases "try_zones cache blocking area placed [''A'', ''B'']")
    case (Inl e)
    with Cons.prems show ?thesis by simp
  next
    case (Inr res)
    show ?thesis
    proof (cases res)
      case None
      with Inr Cons show ?thesis by simp
    next
      case (Some p)
      with Inr try_zones_Some [of cache blocking area placed "[''A'', ''B'']" p]
      obtain r where "p = placed @ [r]" "accepted blocking placed r" by blast
      with Cons.prems(2) have "placed_ok blocking p" by (simp add: placed_ok_snoc)
      with Cons.IH [of p skipped] Cons.prems(1) Inr Some show ?thesis by simp
    qed
  qed
qed

lemma placed_ok_disjoint: "placed_ok blocking placed \<Longrightarrow> pairwise_disjoint placed"
proof (induction placed rule: rev_induct)
  case Nil
  then show ?case by simp
next
  case (snoc r rs)
  have "placed_ok blocking rs"
    unfolding placed_ok_def
  proof (intro allI impI)
    fix i assume i: "i < length rs"
    with snoc.prems have "accepted blocking (take i (rs @ [r])) ((rs @ [r]) ! i)"
      by (simp add: placed_ok_def)
    with i show "accepted blocking (take i rs) (rs ! i)" by (simp add: nth_append)
  qed
  moreover have "length rs < length (rs @ [r])" by simp
  with snoc.prems have "accepted blocking (take (length rs) (rs @ [r])) ((rs @ [r]) ! length rs)"
    unfolding placed_ok_def by blast
  then have "\<not> list_ex (rects_overlap r) rs" by (simp add: accepted_def)
  ultimately show ?case using snoc.IH by (simp add: pairwise_disjoint_snoc)
qed

lemma placed_ok_each:
  assumes "placed_ok blocking placed" "r \<in> set placed"
  shows "\<not> list_ex (rects_overlap r) blocking \<and> touches_corridor r CORRIDORS"
proof -
  from assms(2) obtain i where "i < length placed" "placed ! i = r"
    by (auto simp: in_set_conv_nth)
  with assms(1) have "accepted blocking (take i placed) r" by (auto simp: placed_ok_def)
  then show ?thesis by (simp add: accepted_def)
qed

text \<open>
  Claim C1.  Whatever the placement order, the candidate cache and the blocking list: when
  \<open>greedy_place_with_skips\<close> returns \<open>(placed, skipped)\<close>, every rectangle of \<open>placed\<close>
  overlaps none of the rectangles placed before it and no blocking rectangle, and touches
  a corridor of the full corridor list.  Hence no two rectangles at different positions of
  \<open>placed\<close> overlap, none overlaps a blocking rectangle, and each touches a corridor.
\<close>

theorem greedy_placed_invariant:
  assumes "greedy_place_with_skips place_order candidates_cache blocking = Inr (placed, skipped)"
  shows "(\<forall>i < length placed.
            \<not> list_ex (rects_overlap (placed ! i)) (take i placed @ blocking) \<and>
            touches_corridor (placed ! i) CORRIDORS) \<and>
         (\<forall>i < length placed. \<forall>j < length placed.
            i \<noteq> j \<longrightarrow> \<not> rects_overlap (placed ! i) (placed ! j)) \<and>
         (\<forall>r \<in> set placed. (\<forall>b \<in> set blocking. \<not> rects_overlap r b) \<and>
            touches_corridor r CORRIDORS)"
proof -
  have "placed_ok blocking []" by (simp add: placed_ok_def)
  with assms have ok: "placed_ok blocking placed"
    unfolding greedy_place_with_skips_def by (rule greedy_loop_placed_ok)
  then have a: "\<forall>i < length placed.
      \<not> list_ex (rects_overlap (placed ! i)) (take i placed @ blocking) \<and>
      touches_corridor (placed ! i) CORRIDORS"
    by (simp add: placed_ok_def accepted_def)
  have b: "\<not> rects_overlap (placed ! i) (placed ! j)"
    if "i < length placed" "j < length placed" "i \<noteq> j" for i j
  proof (cases "i < j")
    case True
    with that placed_ok_disjoint [OF ok] show ?thesis by (simp add: pairwise_disjoint_nth)
  next
    case False
    with that have "j < i" by simp
    with that placed_ok_disjoint [OF ok] have "\<not> rects_overlap (placed ! j) (placed ! i)"
      by (simp add: pairwise_disjoint_nth)
    then show ?thesis by (simp add: rects_overlap_sym)
  qed
  have c: "(\<forall>b \<in> set blocking. \<not> rects_overlap r b) \<and> touches_corridor r CORRIDORS"
    if "r \<in> set placed" for r
    using placed_ok_each [OF ok that] by (simp add: list_ex_iff_set)
  from a b c show ?thesis by blast
qed

theorem greedy_placed_invariant_witness:
  "greedy_place_with_skips [12, 12] (\<lambda>k. Some [mk_rect 44 7 4 3 '''' '''']) CORRIDORS =
     Inr ([mk_rect 44 7 4 3 ''A_1'' ''A''], [12]) \<and>
   \<not> list_ex (rects_overlap (mk_rect 44 7 4 3 ''A_1'' ''A'')) CORRIDORS \<and>
   touches_corridor (mk_rect 44 7 4 3 ''A_1'' ''A'') CORRIDORS"
proof -
  have run: "greedy_place_with_skips [12, 12] (\<lambda>k. Some [mk_rect 44 7 4 3 '''' '''']) CORRIDORS =
      Inr ([mk_rect 44 7 4 3 ''A_1'' ''A''], [12])"
    by (simp add: greedy_place_with_skips_def geometry_eval str_nat.simps)
  from greedy_placed_invariant [OF run]
  have "\<not> list_ex (rects_overlap ([mk_rect 44 7 4 3 ''A_1'' ''A''] ! 0))
           (take 0 [mk_rect 44 7 4 3 ''A_1'' ''A''] @ CORRIDORS) \<and>
        touches_corridor ([mk_rect 44 7 4 3 ''A_1'' ''A''] ! 0) CORRIDORS"
    by simp
  with run show ?thesis by simp
qed

subsection \<open>Inventory conservation\<close>

lemma count_area_snoc:
  "count_area (rs @ [r]) s = count_area rs s + (if rw r * rh r = of_int s then 1 else 0)"
  by (simp add: count_area_def)

lemma count_list_snoc: "count_list (xs @ [x]) y = count_list xs y + (if x = y then 1 else 0)"
  by (induction xs) auto

lemma cache_complete_Cons:
  "cache_complete cache (a # rest) \<longleftrightarrow>
     cache (a, ''A'') \<noteq> None \<and> cache (a, ''B'') \<noteq> None \<and> cache_complete cache rest"
  by (auto simp: cache_complete_def)

lemma cache_areas_Cons:
  "cache_areas cache (a # rest) \<Longrightarrow> cache_areas cache rest"
  by (simp add: cache_areas_def)

lemma cache_areas_head:
  "cache_areas cache (a # rest) \<Longrightarrow> z \<in> set [''A'', ''B''] \<Longrightarrow> cache (a, z) = Some c \<Longrightarrow>
     cand \<in> set c \<Longrightarrow> rw cand * rh cand = of_int a"
  unfolding cache_areas_def by (metis list.set_intros(1))

lemma greedy_loop_counts:
  assumes "cache_complete cache order"
  shows "\<exists>placed' skipped'.
           greedy_loop cache blocking order (placed, skipped) = Inr (placed', skipped') \<and>
           length placed' + length skipped' = length placed + length skipped + length order \<and>
           (cache_areas cache order \<longrightarrow>
              (\<forall>s. count_area placed' s + count_list skipped' s =
                    count_area placed s + count_list skipped s + count_list order s))"
  using assms
proof (induction order arbitrary: placed skipped)
  case Nil
  then show ?case by simp
next
  case (Cons area rest)
  from Cons.prems have rest: "cache_complete cache rest"
    and here: "\<forall>z \<in> set [''A'', ''B'']. cache (area, z) \<noteq> None"
    by (simp_all add: cache_complete_Cons)
  from try_zones_total [OF here] obtain res
    where res: "try_zones cache blocking area placed [''A'', ''B''] = Inr res" by blast
  show ?case
  proof (cases res)
    case None
    from Cons.IH [OF rest, of placed "skipped @ [area]"] obtain p s where
      run: "greedy_loop cache blocking rest (placed, skipped @ [area]) = Inr (p, s)" and
      len: "length p + length s = length placed + length (skipped @ [area]) + length rest" and
      cnt: "cache_areas cache rest \<longrightarrow>
              (\<forall>sz. count_area p sz + count_list s sz =
                 count_area placed sz + count_list (skipped @ [area]) sz + count_list rest sz)"
      by blast
    from res None run have "greedy_loop cache blocking (area # rest) (placed, skipped) = Inr (p, s)"
      by simp
    moreover from len have "length p + length s = length placed + length skipped + length (area # rest)"
      by simp
    moreover have "\<forall>sz. count_area p sz + count_list s sz =
        count_area placed sz + count_list skipped sz + count_list (area # rest) sz"
      if "cache_areas cache (area # rest)"
      using cnt cache_areas_Cons [OF that] by (simp add: count_list_snoc)
    ultimately show ?thesis by blast
  next
    case (Some placed1)
    from try_zones_Some [of cache blocking area placed "[''A'', ''B'']" placed1] res Some
    obtain r z c cand where r: "placed1 = placed @ [r]" and z: "z \<in> set [''A'', ''B'']"
      and c: "cache (area, z) = Some c" and cand: "cand \<in> set c" "rw r = rw cand" "rh r = rh cand"
      by blast
    from Cons.IH [OF rest, of placed1 skipped] obtain p s where
      run: "greedy_loop cache blocking rest (placed1, skipped) = Inr (p, s)" and
      len: "length p + length s = length placed1 + length skipped + length rest" and
      cnt: "cache_areas cache rest \<longrightarrow>
              (\<forall>sz. count_area p sz + count_list s sz =
                 count_area placed1 sz + count_list skipped sz + count_list rest sz)"
      by blast
    from res Some run have "greedy_loop cache blocking (area # rest) (placed, skipped) = Inr (p, s)"
      by simp
    moreover from len r have "length p + length s = length placed + length skipped + length (area # rest)"
      by simp
    moreover have "\<forall>sz. count_area p sz + count_list s sz =
        count_area placed sz + count_list skipped sz + count_list (area # rest) sz"
      if m: "cache_areas cache (area # rest)"
    proof -
      from cache_areas_head [OF m z c cand(1)] cand have "rw r * rh r = of_int area" by simp
      with cnt cache_areas_Cons [OF m] r show ?thesis by (simp add: count_area_snoc)
    qed
    ultimately show ?thesis by blast
  qed
qed


text \<open>
  Claim C2 as stated fails: the cache is an argument, and nothing in the allocator compares
  a candidate's area with the size it is placed for.  With a 5 by 5 candidate cached for
  size 12 the item is placed, so size 12 occurs once in the order and neither among the
  placed areas nor among the skipped sizes.
\<close>

theorem greedy_inventory_counterexample:
  "cache_complete (\<lambda>k. Some [mk_rect 43 7 5 5 '''' '''']) [12] \<and>
   greedy_place_with_skips [12] (\<lambda>k. Some [mk_rect 43 7 5 5 '''' '''']) [] =
     Inr ([mk_rect 43 7 5 5 ''A_1'' ''A''], []) \<and>
   count_area [mk_rect 43 7 5 5 ''A_1'' ''A''] 12 + count_list [] (12::int) \<noteq> count_list [12::int] 12"
  by (simp add: cache_complete_def greedy_place_with_skips_def geometry_eval str_nat.simps
      count_area_def)

text \<open>
  Claim C2, amended.  When the cache has an entry for every area of the placement order in
  both zones, \<open>greedy_place_with_skips\<close> returns a pair \<open>(placed, skipped)\<close> with
  \<open>len(placed) + len(skipped) = len(place_order)\<close>; and when moreover every cached
  candidate of an area has that area (\<open>w * h\<close>), then for every size the number of placed
  rectangles of that area plus its number of occurrences in \<open>skipped\<close> is its number of
  occurrences in \<open>place_order\<close>.
\<close>

theorem greedy_inventory_conservation:
  assumes "cache_complete candidates_cache place_order"
  shows "\<exists>placed skipped.
           greedy_place_with_skips place_order candidates_cache blocking = Inr (placed, skipped) \<and>
           length placed + length skipped = length place_order \<and>
           (cache_areas candidates_cache place_order \<longrightarrow>
              (\<forall>s. count_area placed s + count_list skipped s = count_list place_order s))"
proof -
  from greedy_loop_counts [OF assms, of blocking "[]" "[]"]
  show ?thesis
    unfolding greedy_place_with_skips_def by (simp add: count_area_def)
qed

theorem greedy_inventory_conservation_witness:
  "cache_complete (\<lambda>k. Some [mk_rect 44 7 4 3 '''' '''']) [12, 12] \<and>
   cache_areas (\<lambda>k. Some [mk_rect 44 7 4 3 '''' '''']) [12, 12] \<and>
   greedy_place_with_skips [12, 12] (\<lambda>k. Some [mk_rect 44 7 4 3 '''' '''']) CORRIDORS =
     Inr ([mk_rect 44 7 4 3 ''A_1'' ''A''], [12]) \<and>
   length [mk_rect 44 7 4 3 ''A_1'' ''A''] + length [12::int] = length [12::int, 12] \<and>
   count_area [mk_rect 44 7 4 3 ''A_1'' ''A''] 12 + count_list [12::int] 12 = count_list [12::int, 12] 12"
proof -
  have complete: "cache_complete (\<lambda>k. Some [mk_rect 44 7 4 3 '''' '''']) [12, 12]"
    by (simp add: cache_complete_def)
  have areas: "cache_areas (\<lambda>k. Some [mk_rect 44 7 4 3 '''' '''']) [12, 12]"
    by (simp add: cache_areas_def mk_rect_def)
  have run: "greedy_place_with_skips [12, 12] (\<lambda>k. Some [mk_rect 44 7 4 3 '''' '''']) CORRIDORS =
      Inr ([mk_rect 44 7 4 3 ''A_1'' ''A''], [12])"
    by (simp add: greedy_place_with_skips_def geometry_eval str_nat.simps)
  from greedy_inventory_conservation [OF complete, of CORRIDORS] areas run
  have "length [mk_rect 44 7 4 3 ''A_1'' ''A''] + length [12::int] = length [12::int, 12] \<and>
        (\<forall>s. count_area [mk_rect 44 7 4 3 ''A_1'' ''A''] s + count_list [12] s = count_list [12, 12] s)"
    by auto
  with complete areas run show ?thesis by blast
qed

section \<open>The candidate generator\<close>





lemma shapes_candidates_total:
  "\<forall>s \<in> set shapes. min (snap (fst s)) (snap (snd s)) \<noteq> 0 \<Longrightarrow>
     \<exists>cs. shapes_candidates zone shapes = Inr cs"
proof (induction shapes)
  case Nil
  then show ?case by simp
next
  case (Cons s shapes)
  then obtain c2 where "shapes_candidates zone shapes = Inr c2" by auto
  moreover from Cons.prems have "\<exists>c1. shape_candidates zone s = Inr c1"
    by (auto simp: shape_candidates_def Let_def)
  ultimately show ?case by auto
qed

text \<open>The dictionary built while removing duplicates: its keys are distinct and are the keys of its values.\<close>

lemma update_entries: "set (AList.update k v al) \<subseteq> insert (k, v) (set al)"
  by (induction al) auto

lemma uniq_fold_invariant:
  assumes "distinct (map fst al)" "\<forall>(k, v) \<in> set al. k = rect_key v \<and> v \<in> S" "set cs \<subseteq> S"
  shows "distinct (map fst (foldl (\<lambda>uniq r. AList.update (rect_key r) r uniq) al cs)) \<and>
         (\<forall>(k, v) \<in> set (foldl (\<lambda>uniq r. AList.update (rect_key r) r uniq) al cs).
            k = rect_key v \<and> v \<in> S)"
  using assms
proof (induction cs arbitrary: al)
  case Nil
  then show ?case by simp
next
  case (Cons c cs)
  have "distinct (map fst (AList.update (rect_key c) c al))"
    using Cons.prems(1) by (rule distinct_update)
  moreover have "\<forall>(k, v) \<in> set (AList.update (rect_key c) c al). k = rect_key v \<and> v \<in> S"
    using update_entries [of "rect_key c" c al] Cons.prems(2,3) by auto
  moreover from Cons.prems(3) have "set cs \<subseteq> S" by simp
  ultimately show ?case using Cons.IH [of "AList.update (rect_key c) c al"] by simp
qed

lemma uniq_values_props:
  "distinct (map rect_key (uniq_values cs)) \<and> set (uniq_values cs) \<subseteq> set cs"
proof -
  define al where "al = foldl (\<lambda>uniq r. AList.update (rect_key r) r uniq) [] cs"
  from uniq_fold_invariant [of "[]" "set cs" cs]
  have d: "distinct (map fst al)" and k: "\<forall>(k, v) \<in> set al. k = rect_key v \<and> v \<in> set cs"
    unfolding al_def by simp_all
  from k have eq: "map rect_key (map snd al) = map fst al" by (induction al) auto
  from d have "distinct (map rect_key (map snd al))" by (simp only: eq)
  moreover from k have "set (map snd al) \<subseteq> set cs" by force
  ultimately show ?thesis
    unfolding uniq_values_def al_def [symmetric] by blast
qed



lemma snap_positive: "1 / 8 < v \<Longrightarrow> 0 < snap v"
proof -
  assume v: "1 / 8 < v"
  have "\<bar>of_int (py_round (v / GRID)) * GRID - v\<bar> = \<bar>of_int (py_round (v / GRID)) - v / GRID\<bar> / 4"
    unfolding GRID_def by (simp add: abs_if field_simps)
  with py_round_near [of "v / GRID"] have "\<bar>snap v - v\<bar> \<le> 1 / 8"
    unfolding snap_def by simp
  with v show ?thesis by linarith
qed

lemma catalog_shapes_nonzero:
  "\<forall>(a, shapes) \<in> set SHAPES. \<forall>s \<in> set shapes. min (snap (fst s)) (snap (snd s)) \<noteq> 0"
proof -
  have "\<forall>(a, shapes) \<in> set SHAPES. \<forall>s \<in> set shapes. 1 / 8 < fst s \<and> 1 / 8 < snd s"
    by (simp add: SHAPES_def)
  then have "\<forall>(a, shapes) \<in> set SHAPES. \<forall>s \<in> set shapes. 0 < snap (fst s) \<and> 0 < snap (snd s)"
    using snap_positive by blast
  then show ?thesis by fastforce
qed



section \<open>The validator\<close>

lemma dict_get_update:
  "dict_get (AList.update k v d) a dflt = (if a = k then v else dict_get d a dflt)"
  by (simp add: dict_get_def update_conv')

lemma check_booth_found:
  "dict_get (snd (check_booth s b)) a 0 =
     dict_get (snd s) a 0 + (if py_round (b_area b) = a then 1 else 0)"
  by (simp add: check_booth_def Let_def dict_get_update)

lemma foldl_check_booth_found:
  "dict_get (snd (foldl check_booth s bs)) a 0 = dict_get (snd s) a 0 + count_rounded bs a"
proof (induction bs arbitrary: s)
  case Nil
  then show ?case by (simp add: count_rounded_def)
next
  case (Cons b bs)
  show ?case
    unfolding foldl_Cons Cons.IH check_booth_found by (simp add: count_rounded_def)
qed

lemma check_booth_errors_mono: "set (fst s) \<subseteq> set (fst (check_booth s b))"
  by (simp add: check_booth_def Let_def)

lemma foldl_check_booth_errors_mono: "set (fst s) \<subseteq> set (fst (foldl check_booth s bs))"
proof (induction bs arbitrary: s)
  case Nil
  then show ?case by simp
next
  case (Cons b bs)
  from check_booth_errors_mono [of s b] Cons.IH [of "check_booth s b"]
  show ?case by auto
qed

lemma check_booth_aspect:
  assumes "0 < min (b_w b) (b_h b)" "max (b_w b) (b_h b) / min (b_w b) (b_h b) > 4.01"
  shows "Aspect_violation (b_x b) (b_y b) \<in> set (fst (check_booth s b))"
  using assms by (simp add: check_booth_def Let_def)

lemma foldl_check_booth_aspect:
  assumes "b \<in> set bs" "0 < min (b_w b) (b_h b)"
    "max (b_w b) (b_h b) / min (b_w b) (b_h b) > 4.01"
  shows "Aspect_violation (b_x b) (b_y b) \<in> set (fst (foldl check_booth s bs))"
  using assms(1)
proof (induction bs arbitrary: s)
  case Nil
  then show ?case by simp
next
  case (Cons c bs)
  show ?case
  proof (cases "b = c")
    case True
    from check_booth_aspect [OF assms(2,3), of s]
      foldl_check_booth_errors_mono [of "check_booth s b" bs] True
    show ?thesis by auto
  next
    case False
    with Cons show ?thesis by simp
  qed
qed

lemma validation_errors_aspect:
  assumes "b \<in> set bs" "0 < min (b_w b) (b_h b)"
    "max (b_w b) (b_h b) / min (b_w b) (b_h b) > 4.01"
  shows "Aspect_violation (b_x b) (b_y b) \<in> set (validation_errors bs)"
  using foldl_check_booth_aspect [OF assms] by (simp add: validation_errors_def Let_def)

lemma check_inventory_mismatch:
  "(sz, cnt) \<in> set req \<Longrightarrow> dict_get found sz 0 \<noteq> cnt \<Longrightarrow>
     Inventory_mismatch sz cnt (dict_get found sz 0) \<in> set (check_inventory found req)"
  by (induction req) (auto simp: Let_def)

lemma validation_errors_mismatch:
  assumes "(sz, cnt) \<in> set required_inventory" "count_rounded bs sz \<noteq> cnt"
  shows "Inventory_mismatch sz cnt (count_rounded bs sz) \<in> set (validation_errors bs)"
proof -
  have "dict_get (snd (foldl check_booth ([], []) bs)) sz 0 = count_rounded bs sz"
    unfolding foldl_check_booth_found by (simp add: dict_get_def)
  with check_inventory_mismatch [OF assms(1), of "snd (foldl check_booth ([], []) bs)"] assms(2)
  show ?thesis by (simp add: validation_errors_def Let_def)
qed

lemma py_round_numeral: "py_round (numeral n) = numeral n"
  using py_round_of_int [of "numeral n"] by simp

text \<open>
  Claim C9.  The validator's target inventory gives 1, 2, 2 and 4 for the sizes 200, 100, 80
  and 48 where the generator's inventory gives 2, 3, 3 and 5.  Hence for every list of booths
  whose counts by rounded area are those of the generator's whole inventory, the inventory
  check records a mismatch for each of these four sizes, and \<open>validate_plan\<close> returns
  false on every file that parses to these booths.
\<close>

theorem validator_rejects_full_inventory:
  assumes "\<forall>(sz, cnt) \<in> set INVENTORY. count_rounded booths sz = cnt"
  shows "map (\<lambda>sz. (map_of required_inventory sz, map_of INVENTORY sz)) [200, 100, 80, 48] =
           [(Some 1, Some 2), (Some 2, Some 3), (Some 2, Some 3), (Some 4, Some 5)] \<and>
         set [Inventory_mismatch 200 1 2, Inventory_mismatch 100 2 3,
              Inventory_mismatch 80 2 3, Inventory_mismatch 48 4 5]
           \<subseteq> set (validation_errors booths) \<and>
         (\<forall>file_exists doc. parse_svg_rects doc = booths \<longrightarrow> \<not> validate_plan file_exists doc)"
proof -
  have tables: "map (\<lambda>sz. (map_of required_inventory sz, map_of INVENTORY sz)) [200, 100, 80, 48] =
      [(Some 1, Some 2), (Some 2, Some 3), (Some 2, Some 3), (Some 4, Some 5)]"
    by (simp add: required_inventory_def INVENTORY_def)
  from assms have counts: "count_rounded booths 200 = 2" "count_rounded booths 100 = 3"
    "count_rounded booths 80 = 3" "count_rounded booths 48 = 5"
    by (simp_all add: INVENTORY_def)
  have "Inventory_mismatch 200 1 (count_rounded booths 200) \<in> set (validation_errors booths)"
    by (rule validation_errors_mismatch) (simp_all add: required_inventory_def counts)
  moreover
  have "Inventory_mismatch 100 2 (count_rounded booths 100) \<in> set (validation_errors booths)"
    by (rule validation_errors_mismatch) (simp_all add: required_inventory_def counts)
  moreover
  have "Inventory_mismatch 80 2 (count_rounded booths 80) \<in> set (validation_errors booths)"
    by (rule validation_errors_mismatch) (simp_all add: required_inventory_def counts)
  moreover
  have "Inventory_mismatch 48 4 (count_rounded booths 48) \<in> set (validation_errors booths)"
    by (rule validation_errors_mismatch) (simp_all add: required_inventory_def counts)
  ultimately have errs: "set [Inventory_mismatch 200 1 2, Inventory_mismatch 100 2 3,
      Inventory_mismatch 80 2 3, Inventory_mismatch 48 4 5] \<subseteq> set (validation_errors booths)"
    by (simp add: counts)
  then have "validation_errors booths \<noteq> []" by auto
  then have "\<forall>file_exists doc. parse_svg_rects doc = booths \<longrightarrow> \<not> validate_plan file_exists doc"
    by (simp add: validate_plan_def)
  with tables errs show ?thesis by blast
qed

lemma full_inventory_counts:
  "list_all (\<lambda>(sz, cnt). count_rounded (parse_svg_rects (Some full_inventory_elems)) sz = cnt)
     INVENTORY"
  by (simp add: full_inventory_elems_def INVENTORY_def parse_svg_rects_def is_hall_def
      is_corridor_def count_rounded_def py_round_numeral eval_nat_numeral)

theorem validator_rejects_full_inventory_witness:
  "list_all (\<lambda>(sz, cnt). count_rounded (parse_svg_rects (Some full_inventory_elems)) sz = cnt)
     INVENTORY \<and>
   Inventory_mismatch 200 1 2 \<in> set (validation_errors (parse_svg_rects (Some full_inventory_elems))) \<and>
   \<not> validate_plan True (Some full_inventory_elems)"
proof -
  from full_inventory_counts
  have h: "\<forall>(sz, cnt) \<in> set INVENTORY.
      count_rounded (parse_svg_rects (Some full_inventory_elems)) sz = cnt"
    by (simp add: list_all_iff)
  from validator_rejects_full_inventory [OF h] full_inventory_counts
  show ?thesis by simp
qed

subsection \<open>The corridor filter of the validator\<close>

lemma parse_elems_set:
  "b \<in> set (parse_elems elems) \<longleftrightarrow>
     (\<exists>e \<in> set elems. \<exists>x y w h.
        sublist ''rect'' (el_tag e) \<and> el_geom e = Some (x, y, w, h) \<and>
        \<not> is_hall w h \<and> \<not> is_corridor w h \<and>
        b = \<lparr>b_x = x, b_y = y, b_w = w, b_h = h, b_area = w * h\<rparr>)"
proof (induction elems)
  case Nil
  then show ?case by simp
next
  case (Cons e es)
  show ?case
  proof (cases "el_geom e")
    case None
    with Cons show ?thesis by auto
  next
    case (Some g)
    obtain x y w h where g: "g = (x, y, w, h)" by (cases g) auto
    with Some Cons show ?thesis by auto
  qed
qed

lemma rect_tag: "sublist ''rect'' ''{http://www.w3.org/2000/svg}rect''"
proof -
  have "sublist ''rect'' (''{http://www.w3.org/2000/svg}'' @ ''rect'')"
    by (rule sublist_append_leftI)
  then show ?thesis by simp
qed

lemma minor_corridor_kept:
  assumes c: "c \<in> set (SECONDARY_CORRIDORS @ TERTIARY_CORRIDORS)"
    and e: "svg_elem_of c \<in> set elems"
  shows "booth_of (svg_rect_geom c) \<in> set (parse_svg_rects (Some elems))"
    and "Aspect_violation (rx c) (HALL_H - ry c - rh c)
           \<in> set (validation_errors (parse_svg_rects (Some elems)))"
proof -
  from c have dims: "(rw c, rh c) = (3, 26) \<or> (rw c, rh c) = (80, 3)"
    by (auto simp: SECONDARY_CORRIDORS_def TERTIARY_CORRIDORS_def mk_rect_def)
  then have keep: "\<not> is_hall (rw c) (rh c) \<and> \<not> is_corridor (rw c) (rh c)"
    by (auto simp: is_hall_def is_corridor_def)
  have "\<exists>e \<in> set elems. \<exists>x y w h.
        sublist ''rect'' (el_tag e) \<and> el_geom e = Some (x, y, w, h) \<and>
        \<not> is_hall w h \<and> \<not> is_corridor w h \<and>
        booth_of (svg_rect_geom c) = \<lparr>b_x = x, b_y = y, b_w = w, b_h = h, b_area = w * h\<rparr>"
    using e keep rect_tag
    by (intro bexI [of _ "svg_elem_of c"])
       (simp_all add: svg_elem_of_def svg_rect_geom_def booth_of_def)
  then show kept: "booth_of (svg_rect_geom c) \<in> set (parse_svg_rects (Some elems))"
    by (simp add: parse_svg_rects_def parse_elems_set)
  from dims have "0 < min (rw c) (rh c) \<and> max (rw c) (rh c) / min (rw c) (rh c) > 4.01"
    by auto
  with validation_errors_aspect [OF kept]
  show "Aspect_violation (rx c) (HALL_H - ry c - rh c)
          \<in> set (validation_errors (parse_svg_rects (Some elems)))"
    by (simp add: booth_of_def svg_rect_geom_def)
qed

text \<open>
  Claim C10.  \<open>parse_svg_rects\<close> returns exactly the rectangles of the image that are
  neither the 80 by 40 hall (both sides within 0.1) nor match the corridor filter (width
  within 0.1 of 4 and height above 10, or height within 0.1 of 4 and width above 10).  The
  spur corridors (3 by 26) and the tertiary corridor (80 by 3) of the generator match
  neither, so the elements written for them come back as booths, and for each of them
  \<open>validate_plan\<close> records an aspect-ratio error and returns false.
\<close>

theorem validator_takes_minor_corridors_for_booths:
  "(b \<in> set (parse_svg_rects (Some elems)) \<longleftrightarrow>
      (\<exists>e \<in> set elems. \<exists>x y w h.
         sublist ''rect'' (el_tag e) \<and> el_geom e = Some (x, y, w, h) \<and>
         \<not> (\<bar>w - 80\<bar> < 0.1 \<and> \<bar>h - 40\<bar> < 0.1) \<and>
         \<not> ((\<bar>w - 4\<bar> < 0.1 \<and> h > 10) \<or> (\<bar>h - 4\<bar> < 0.1 \<and> w > 10)) \<and>
         b = \<lparr>b_x = x, b_y = y, b_w = w, b_h = h, b_area = w * h\<rparr>)) \<and>
   map (\<lambda>c. (rw c, rh c)) (SECONDARY_CORRIDORS @ TERTIARY_CORRIDORS) = [(3, 26), (3, 26), (80, 3)] \<and>
   (\<forall>c \<in> set (SECONDARY_CORRIDORS @ TERTIARY_CORRIDORS).
      svg_elem_of c \<in> set elems \<longrightarrow>
        booth_of (svg_rect_geom c) \<in> set (parse_svg_rects (Some elems)) \<and>
        Aspect_violation (rx c) (HALL_H - ry c - rh c)
          \<in> set (validation_errors (parse_svg_rects (Some elems))) \<and>
        \<not> validate_plan True (Some elems))"
proof -
  have a: "b \<in> set (parse_svg_rects (Some elems)) \<longleftrightarrow>
      (\<exists>e \<in> set elems. \<exists>x y w h.
         sublist ''rect'' (el_tag e) \<and> el_geom e = Some (x, y, w, h) \<and>
         \<not> (\<bar>w - 80\<bar> < 0.1 \<and> \<bar>h - 40\<bar> < 0.1) \<and>
         \<not> ((\<bar>w - 4\<bar> < 0.1 \<and> h > 10) \<or> (\<bar>h - 4\<bar> < 0.1 \<and> w > 10)) \<and>
         b = \<lparr>b_x = x, b_y = y, b_w = w, b_h = h, b_area = w * h\<rparr>)"
    unfolding parse_svg_rects_def option.case parse_elems_set is_hall_def is_corridor_def ..
  have d: "map (\<lambda>c. (rw c, rh c)) (SECONDARY_CORRIDORS @ TERTIARY_CORRIDORS) =
      [(3, 26), (3, 26), (80, 3)]"
    by (simp add: SECONDARY_CORRIDORS_def TERTIARY_CORRIDORS_def mk_rect_def)
  have c: "booth_of (svg_rect_geom c) \<in> set (parse_svg_rects (Some elems)) \<and>
        Aspect_violation (rx c) (HALL_H - ry c - rh c)
          \<in> set (validation_errors (parse_svg_rects (Some elems))) \<and>
        \<not> validate_plan True (Some elems)"
    if "c \<in> set (SECONDARY_CORRIDORS @ TERTIARY_CORRIDORS)" "svg_elem_of c \<in> set elems" for c
  proof -
    note k = minor_corridor_kept [OF that]
    from k(2) have "validation_errors (parse_svg_rects (Some elems)) \<noteq> []" by auto
    with k show ?thesis by (simp add: validate_plan_def)
  qed
  from a d c show ?thesis by blast
qed

theorem validator_takes_minor_corridors_for_booths_witness:
  "mk_rect 22.5 7 3 26 ''spur_A'' '''' \<in> set (SECONDARY_CORRIDORS @ TERTIARY_CORRIDORS) \<and>
   svg_elem_of (mk_rect 22.5 7 3 26 ''spur_A'' '''') \<in> set (map svg_elem_of CORRIDORS) \<and>
   Aspect_violation 22.5 7
     \<in> set (validation_errors (parse_svg_rects (Some (map svg_elem_of CORRIDORS)))) \<and>
   \<not> validate_plan True (Some (map svg_elem_of CORRIDORS))"
proof -
  have m: "mk_rect 22.5 7 3 26 ''spur_A'' '''' \<in> set (SECONDARY_CORRIDORS @ TERTIARY_CORRIDORS)"
    by (simp add: SECONDARY_CORRIDORS_def)
  have e: "svg_elem_of (mk_rect 22.5 7 3 26 ''spur_A'' '''') \<in> set (map svg_elem_of CORRIDORS)"
    by (simp add: CORRIDORS_def SECONDARY_CORRIDORS_def)
  from validator_takes_minor_corridors_for_booths [of _ "map svg_elem_of CORRIDORS"] m e
  have "Aspect_violation (rx (mk_rect 22.5 7 3 26 ''spur_A'' ''''))
          (HALL_H - ry (mk_rect 22.5 7 3 26 ''spur_A'' '''') - rh (mk_rect 22.5 7 3 26 ''spur_A'' ''''))
          \<in> set (validation_errors (parse_svg_rects (Some (map svg_elem_of CORRIDORS)))) \<and>
        \<not> validate_plan True (Some (map svg_elem_of CORRIDORS))"
    by blast
  then have "Aspect_violation 22.5 7
      \<in> set (validation_errors (parse_svg_rects (Some (map svg_elem_of CORRIDORS)))) \<and>
      \<not> validate_plan True (Some (map svg_elem_of CORRIDORS))"
    by (simp add: mk_rect_def HALL_H_def)
  with m e show ?thesis by blast
qed

section \<open>Exceptions of the engine\<close>

subsection \<open>The outer-strip placer on any blocking list\<close>












subsection \<open>Filling the cache\<close>


lemma fill_zones_ok:
  "fill_zones gen a zs c = Inr c' \<Longrightarrow>
     (\<forall>z \<in> set zs. \<exists>cs. gen a z = Inr cs \<and> cs \<noteq> [] \<and> c' (a, z) \<noteq> None) \<and>
     (\<forall>k. c k \<noteq> None \<longrightarrow> c' k \<noteq> None)"
proof (induction zs arbitrary: c)
  case Nil
  then show ?case by simp
next
  case (Cons z zs)
  from Cons.prems obtain cs where g: "gen a z = Inr cs" "cs \<noteq> []"
    and rest: "fill_zones gen a zs (c((a, z) \<mapsto> cs)) = Inr c'"
    by (auto split: sum.splits if_splits)
  from Cons.IH [OF rest] g show ?case by auto
qed

lemma fill_zones_total:
  "\<forall>z \<in> set zs. \<exists>cs. gen a z = Inr cs \<and> cs \<noteq> [] \<Longrightarrow> \<exists>c'. fill_zones gen a zs c = Inr c'"
  by (induction zs arbitrary: c) auto


lemma fill_cache_ok:
  "fill_cache gen areas c = Inr c' \<Longrightarrow>
     (\<forall>a \<in> set areas. \<forall>z \<in> set [''A'', ''B'']. \<exists>cs. gen a z = Inr cs \<and> cs \<noteq> [] \<and> c' (a, z) \<noteq> None) \<and>
     (\<forall>k. c k \<noteq> None \<longrightarrow> c' k \<noteq> None)"
proof (induction areas arbitrary: c)
  case Nil
  then show ?case by simp
next
  case (Cons a areas)
  from Cons.prems obtain c1 where z: "fill_zones gen a [''A'', ''B''] c = Inr c1"
    and rest: "fill_cache gen areas c1 = Inr c'"
    by (auto split: sum.splits)
  from fill_zones_ok [OF z] Cons.IH [OF rest] show ?case
    by (simp only: list.set ball_simps) blast
qed

lemma fill_cache_total:
  "\<forall>a \<in> set areas. \<forall>z \<in> set [''A'', ''B'']. \<exists>cs. gen a z = Inr cs \<and> cs \<noteq> [] \<Longrightarrow>
     \<exists>c'. fill_cache gen areas c = Inr c'"
proof (induction areas arbitrary: c)
  case Nil
  then show ?case by simp
next
  case (Cons a areas)
  from Cons.prems have "\<forall>z \<in> set [''A'', ''B'']. \<exists>cs. gen a z = Inr cs \<and> cs \<noteq> []" by simp
  from fill_zones_total [of "[''A'', ''B'']" gen a c, OF this] obtain c1 where "fill_zones gen a [''A'', ''B''] c = Inr c1"
    by blast
  moreover from Cons.prems Cons.IH [of c1] obtain c' where "fill_cache gen areas c1 = Inr c'"
    by auto
  ultimately show ?case by simp
qed


subsection \<open>An item no candidate fits is skipped\<close>


subsection \<open>Every catalog size has a candidate in both zones\<close>

lemma slide_first:
  "t \<le> t_end + EPS \<Longrightarrow> inside_zone (mk t) zb \<Longrightarrow> slide mk zb t t_end \<noteq> []"
  by (subst slide.simps) simp

lemma snap_on_grid: "snap (of_int k * GRID) = of_int k * GRID"
proof -
  have "of_int k * GRID / GRID = (of_int k :: real)" by (simp add: GRID_def)
  then show ?thesis unfolding snap_def by (simp only: py_round_of_int)
qed

lemma snap_of_difference: "snap (of_int m - snap v) = of_int m - snap v"
proof -
  have "of_int m - snap v = of_int (4 * m - py_round (v / GRID)) * GRID"
    by (simp add: snap_def GRID_def algebra_simps)
  then show ?thesis by (simp only: snap_on_grid)
qed

lemma corridor_edges_zone_A:
  "corridor_edges_for_zone ''A'' =
     [V_edge ''right'' 48 7 33, H_edge ''top'' 33 0 48, H_edge ''bottom'' 7 0 48,
      V_edge ''right'' 22.5 7 33, V_edge ''left'' 25.5 7 33,
      H_edge ''top'' 19 0 48, H_edge ''bottom'' 22 0 48]"
  by (simp add: corridor_edges_for_zone_def corridor_edges_def zone_bounds_def Let_def
      CORRIDORS_def MAIN_CORRIDORS_def SECONDARY_CORRIDORS_def TERTIARY_CORRIDORS_def
      mk_rect_def ZONE_A_def)

lemma corridor_edges_zone_B:
  "corridor_edges_for_zone ''B'' =
     [V_edge ''left'' 52 7 33, H_edge ''top'' 33 52 80, H_edge ''bottom'' 7 52 80,
      V_edge ''right'' 62.5 7 33, V_edge ''left'' 65.5 7 33,
      H_edge ''top'' 19 52 80, H_edge ''bottom'' 22 52 80]"
  by (simp add: corridor_edges_for_zone_def corridor_edges_def zone_bounds_def Let_def
      CORRIDORS_def MAIN_CORRIDORS_def SECONDARY_CORRIDORS_def TERTIARY_CORRIDORS_def
      mk_rect_def ZONE_B_def)

lemma first_edge_nonempty:
  assumes z: "zone = ''A'' \<or> zone = ''B''"
    and w: "w = snap w0" "0 < w" "w \<le> 28" and h: "0 < h" "h \<le> 26"
  shows "concat (map (edge_candidates w h zone (zone_bounds zone)) (corridor_edges_for_zone zone))
           \<noteq> []"
proof -
  from w(1) snap_of_difference [of 48 w0] have s48: "snap (48 - w) = 48 - w" by simp
  from snap_of_int [of 7] have s7: "snap 7 = 7" by simp
  from snap_of_int [of 52] have s52: "snap 52 = 52" by simp
  from z show ?thesis
  proof
    assume a: "zone = ''A''"
    have "slide (\<lambda>y. mk_rect (snap (48 - w)) (snap y) w h '''' ''A'') ZONE_A 7 (33 - h) \<noteq> []"
      using w(2,3) h by (intro slide_first) (simp_all add: inside_zone_def mk_rect_def ZONE_A_def s48 s7 EPS_def)
    then show ?thesis
      unfolding a corridor_edges_zone_A by (simp add: zone_bounds_def)
  next
    assume b: "zone = ''B''"
    have "slide (\<lambda>y. mk_rect (snap 52) (snap y) w h '''' ''B'') ZONE_B 7 (33 - h) \<noteq> []"
      using w(2,3) h by (intro slide_first) (simp_all add: inside_zone_def mk_rect_def ZONE_B_def s52 s7 EPS_def)
    then show ?thesis
      unfolding b corridor_edges_zone_B by (simp add: zone_bounds_def)
  qed
qed

lemma shape_candidates_nonempty:
  assumes "zone = ''A'' \<or> zone = ''B''"
    and "0 < snap (fst s)" "snap (fst s) \<le> 28" "0 < snap (snd s)" "snap (snd s) \<le> 26"
    and "max (snap (fst s)) (snap (snd s)) / min (snap (fst s)) (snap (snd s)) \<le> 4.0001"
  shows "\<exists>cs. shape_candidates zone s = Inr cs \<and> cs \<noteq> []"
proof -
  from assms(2,4) have "min (snap (fst s)) (snap (snd s)) \<noteq> 0" by simp
  with assms(6) first_edge_nonempty [OF assms(1) refl assms(2,3,4,5)]
  show ?thesis by (simp add: shape_candidates_def Let_def)
qed

lemma catalog_first_shapes:
  "\<forall>(a, shapes) \<in> set SHAPES. shapes \<noteq> [] \<and>
     0 < snap (fst (hd shapes)) \<and> snap (fst (hd shapes)) \<le> 28 \<and>
     0 < snap (snd (hd shapes)) \<and> snap (snd (hd shapes)) \<le> 26 \<and>
     max (snap (fst (hd shapes))) (snap (snd (hd shapes))) /
       min (snap (fst (hd shapes))) (snap (snd (hd shapes))) \<le> 4.0001"
  by (simp add: SHAPES_def snap_numeral)

lemma uniq_fold_nonempty:
  "al \<noteq> [] \<or> cs \<noteq> [] \<Longrightarrow> foldl (\<lambda>uniq r. AList.update (rect_key r) r uniq) al cs \<noteq> []"
proof (induction cs arbitrary: al)
  case Nil
  then show ?case by simp
next
  case (Cons c cs)
  have "AList.update (rect_key c) c al \<noteq> []" by (cases al) auto
  with Cons.IH [of "AList.update (rect_key c) c al"] show ?case by simp
qed

lemma generate_candidates_nonempty:
  assumes "area \<in> fst ` set SHAPES" "zone = ''A'' \<or> zone = ''B''"
  shows "\<exists>cs. generate_candidates area zone = Inr cs \<and> cs \<noteq> []"
proof -
  from assms(1) obtain shapes where m: "map_of SHAPES area = Some shapes"
    by (metis domD dom_map_of_conv_image_fst)
  then have mem: "(area, shapes) \<in> set SHAPES" by (rule map_of_SomeD)
  with catalog_first_shapes obtain s rest where sh: "shapes = s # rest"
    and "0 < snap (fst s)" "snap (fst s) \<le> 28" "0 < snap (snd s)" "snap (snd s) \<le> 26"
      "max (snap (fst s)) (snap (snd s)) / min (snap (fst s)) (snap (snd s)) \<le> 4.0001"
    by (cases shapes) auto
  from shape_candidates_nonempty [OF assms(2) this(2-6)] obtain c1
    where c1: "shape_candidates zone s = Inr c1" "c1 \<noteq> []" by blast
  from mem catalog_shapes_nonzero
  have "\<forall>s \<in> set shapes. min (snap (fst s)) (snap (snd s)) \<noteq> 0" by blast
  with sh have "\<forall>s \<in> set rest. min (snap (fst s)) (snap (snd s)) \<noteq> 0" by simp
  from shapes_candidates_total [OF this] obtain c2
    where c2: "shapes_candidates zone rest = Inr c2" by blast
  from c1 have "uniq_values (c1 @ c2) \<noteq> []"
    unfolding uniq_values_def by (simp add: uniq_fold_nonempty)
  then have "length (sort_key dist (uniq_values (c1 @ c2))) \<noteq> 0" by simp
  then have "take 400 (sort_key dist (uniq_values (c1 @ c2))) \<noteq> []"
    by (simp only: take_eq_Nil length_0_conv) simp
  with m sh c1 c2 show ?thesis by (simp add: generate_candidates_def)
qed

subsection \<open>The run of main on the fixed configuration\<close>

lemma build_place_order_keys: "set (build_place_order remaining) \<subseteq> fst ` set remaining"
  by (force simp: build_place_order_def)

lemma subtract_used_value:
  "subtract_used INVENTORY [(30, 5), (18, 5), (15, 4), (12, 6)] =
     Inr [(200, 2), (100, 3), (90, 2), (80, 3), (60, 4), (48, 5), (40, 4),
          (30, 0), (20, 5), (18, 0), (15, 0), (12, 0)]"
  by (simp add: INVENTORY_def)




section \<open>Corridor contact along a full side\<close>


lemma slide_elem:
  "r \<in> set (slide mk zb t t_end) \<Longrightarrow> \<exists>u. r = mk u \<and> inside_zone r zb"
proof (induction mk zb t t_end rule: slide.induct)
  case (1 mk zb t t_end)
  from "1.prems" have le: "t \<le> t_end + EPS"
    by (subst (asm) slide.simps) (auto split: if_splits)
  with "1.prems" have "(r = mk t \<and> inside_zone (mk t) zb) \<or> r \<in> set (slide mk zb (t + STEP) t_end)"
    by (subst (asm) slide.simps) (auto split: if_splits)
  with le "1.IH" show ?case by auto
qed

lemma snap_grid_difference: "snap (of_int m * GRID - snap v) = of_int m * GRID - snap v"
proof -
  have "of_int m * GRID - snap v = of_int (m - py_round (v / GRID)) * GRID"
    by (simp add: snap_def algebra_simps)
  then show ?thesis by (simp only: snap_on_grid)
qed

lemma snap_minus_snap:
  "snap (48 - snap v) = 48 - snap v" "snap (52 - snap v) = 52 - snap v"
  "snap (45 / 2 - snap v) = 45 / 2 - snap v" "snap (125 / 2 - snap v) = 125 / 2 - snap v"
  "snap (33 - snap v) = 33 - snap v" "snap (19 - snap v) = 19 - snap v"
  using snap_grid_difference [of 192 v] snap_grid_difference [of 208 v]
    snap_grid_difference [of 90 v] snap_grid_difference [of 250 v]
    snap_grid_difference [of 132 v] snap_grid_difference [of 76 v]
  by (simp_all add: GRID_def)

lemma snap_grid_values:
  "snap (51 / 2) = 51 / 2" "snap (131 / 2) = 131 / 2" "snap 22 = 22" "snap 7 = 7" "snap 52 = 52"
  using snap_on_grid [of 102] snap_on_grid [of 262] snap_of_int [of 22] snap_of_int [of 7]
    snap_of_int [of 52]
  by (simp_all add: GRID_def)

lemma v_right_full_side:
  assumes "r \<in> set (edge_candidates (snap w0) h zone zb (V_edge ''right'' ex y0 y1))"
    and "snap (ex - snap w0) = ex - snap w0" "rx c = ex"
    and "ry c \<le> by0 zb" "by1 zb \<le> ry c + rh c"
  shows "full_side_contact r c"
proof -
  from assms(1) obtain u where
    r: "r = mk_rect (snap (ex - snap w0)) (snap u) (snap w0) h '''' zone" and i: "inside_zone r zb"
    by (auto simp: Let_def dest!: slide_elem)
  from r assms(2,3) have "rx r + rw r = rx c" by (simp add: mk_rect_def)
  then have "isclose (rx r + rw r) (rx c) EPS" by (simp add: isclose_def)
  moreover from i assms(4,5) have "ry c - EPS \<le> ry r \<and> ry r + rh r \<le> ry c + rh c + EPS"
    by (simp add: inside_zone_def)
  ultimately show ?thesis by (simp add: full_side_contact_def)
qed

lemma v_left_full_side:
  assumes "r \<in> set (edge_candidates w h zone zb (V_edge ''left'' ex y0 y1))"
    and "snap ex = ex" "rx c + rw c = ex"
    and "ry c \<le> by0 zb" "by1 zb \<le> ry c + rh c"
  shows "full_side_contact r c"
proof -
  from assms(1) obtain u where
    r: "r = mk_rect (snap ex) (snap u) w h '''' zone" and i: "inside_zone r zb"
    by (auto simp: Let_def dest!: slide_elem)
  from r assms(2,3) have "rx c + rw c = rx r" by (simp add: mk_rect_def)
  then have "isclose (rx c + rw c) (rx r) EPS" by (simp add: isclose_def)
  moreover from i assms(4,5) have "ry c - EPS \<le> ry r \<and> ry r + rh r \<le> ry c + rh c + EPS"
    by (simp add: inside_zone_def)
  ultimately show ?thesis by (simp add: full_side_contact_def)
qed

lemma h_top_full_side:
  assumes "r \<in> set (edge_candidates w (snap h0) zone zb (H_edge ''top'' ey x0 x1))"
    and "snap (ey - snap h0) = ey - snap h0" "ry c = ey"
    and "rx c \<le> bx0 zb" "bx1 zb \<le> rx c + rw c"
  shows "full_side_contact r c"
proof -
  from assms(1) obtain u where
    r: "r = mk_rect (snap u) (snap (ey - snap h0)) w (snap h0) '''' zone" and i: "inside_zone r zb"
    by (auto simp: Let_def dest!: slide_elem)
  from r assms(2,3) have "ry r + rh r = ry c" by (simp add: mk_rect_def)
  then have "isclose (ry r + rh r) (ry c) EPS" by (simp add: isclose_def)
  moreover from i assms(4,5) have "rx c - EPS \<le> rx r \<and> rx r + rw r \<le> rx c + rw c + EPS"
    by (simp add: inside_zone_def)
  ultimately show ?thesis by (simp add: full_side_contact_def)
qed

lemma h_bottom_full_side:
  assumes "r \<in> set (edge_candidates w h zone zb (H_edge ''bottom'' ey x0 x1))"
    and "snap ey = ey" "ry c + rh c = ey"
    and "rx c \<le> bx0 zb" "bx1 zb \<le> rx c + rw c"
  shows "full_side_contact r c"
proof -
  from assms(1) obtain u where
    r: "r = mk_rect (snap u) (snap ey) w h '''' zone" and i: "inside_zone r zb"
    by (auto simp: Let_def dest!: slide_elem)
  from r assms(2,3) have "ry c + rh c = ry r" by (simp add: mk_rect_def)
  then have "isclose (ry c + rh c) (ry r) EPS" by (simp add: isclose_def)
  moreover from i assms(4,5) have "rx c - EPS \<le> rx r \<and> rx r + rw r \<le> rx c + rw c + EPS"
    by (simp add: inside_zone_def)
  ultimately show ?thesis by (simp add: full_side_contact_def)
qed

lemma corridor_edge_full_side:
  assumes z: "zone = ''A'' \<or> zone = ''B''" and c: "c \<in> set CORRIDORS"
    and e: "e \<in> set (corridor_edges zone c)"
    and r: "r \<in> set (edge_candidates (snap w0) (snap h0) zone (zone_bounds zone) e)"
  shows "full_side_contact r c"
proof -
  note ev = corridor_edges_def zone_bounds_def ZONE_A_def ZONE_B_def mk_rect_def Let_def
  note sn = snap_minus_snap snap_grid_values ZONE_A_def ZONE_B_def mk_rect_def
  from c consider
    (mv) "c = mk_rect 48 0 4 40 ''main_vertical'' ''''"
    | (mu) "c = mk_rect 0 33 80 4 ''main_upper'' ''''"
    | (ml) "c = mk_rect 0 3 80 4 ''main_lower'' ''''"
    | (sa) "c = mk_rect 22.5 7 3 26 ''spur_A'' ''''"
    | (sb) "c = mk_rect 62.5 7 3 26 ''spur_B'' ''''"
    | (tm) "c = mk_rect 0 19 80 3 ''tertiary_mid'' ''''"
    by (auto simp: CORRIDORS_def MAIN_CORRIDORS_def SECONDARY_CORRIDORS_def TERTIARY_CORRIDORS_def)
  then show ?thesis
  proof cases
    case mv
    from z show ?thesis
    proof
      assume a: "zone = ''A''"
      from e have "e \<in> set [V_edge ''right'' 48 7 33]"
        unfolding a mv by (simp add: ev)
      with r a have "r \<in> set (edge_candidates (snap w0) (snap h0) ''A'' ZONE_A (V_edge ''right'' 48 7 33))"
        by (auto simp: zone_bounds_def)
      then show ?thesis
        unfolding mv by (rule v_right_full_side) (simp_all add: sn)
    next
      assume a: "zone = ''B''"
      from e have "e \<in> set [V_edge ''left'' 52 7 33]"
        unfolding a mv by (simp add: ev)
      with r a have "r \<in> set (edge_candidates (snap w0) (snap h0) ''B'' ZONE_B (V_edge ''left'' 52 7 33))"
        by (auto simp: zone_bounds_def)
      then show ?thesis
        unfolding mv by (rule v_left_full_side) (simp_all add: sn)
    qed
  next
    case mu
    from z show ?thesis
    proof
      assume a: "zone = ''A''"
      from e have "e \<in> set [H_edge ''top'' 33 0 48]"
        unfolding a mu by (simp add: ev)
      with r a have "r \<in> set (edge_candidates (snap w0) (snap h0) ''A'' ZONE_A (H_edge ''top'' 33 0 48))"
        by (auto simp: zone_bounds_def)
      then show ?thesis
        unfolding mu by (rule h_top_full_side) (simp_all add: sn)
    next
      assume a: "zone = ''B''"
      from e have "e \<in> set [H_edge ''top'' 33 52 80]"
        unfolding a mu by (simp add: ev)
      with r a have "r \<in> set (edge_candidates (snap w0) (snap h0) ''B'' ZONE_B (H_edge ''top'' 33 52 80))"
        by (auto simp: zone_bounds_def)
      then show ?thesis
        unfolding mu by (rule h_top_full_side) (simp_all add: sn)
    qed
  next
    case ml
    from z show ?thesis
    proof
      assume a: "zone = ''A''"
      from e have "e \<in> set [H_edge ''bottom'' 7 0 48]"
        unfolding a ml by (simp add: ev)
      with r a have "r \<in> set (edge_candidates (snap w0) (snap h0) ''A'' ZONE_A (H_edge ''bottom'' 7 0 48))"
        by (auto simp: zone_bounds_def)
      then show ?thesis
        unfolding ml by (rule h_bottom_full_side) (simp_all add: sn)
    next
      assume a: "zone = ''B''"
      from e have "e \<in> set [H_edge ''bottom'' 7 52 80]"
        unfolding a ml by (simp add: ev)
      with r a have "r \<in> set (edge_candidates (snap w0) (snap h0) ''B'' ZONE_B (H_edge ''bottom'' 7 52 80))"
        by (auto simp: zone_bounds_def)
      then show ?thesis
        unfolding ml by (rule h_bottom_full_side) (simp_all add: sn)
    qed
  next
    case sa
    from z show ?thesis
    proof
      assume a: "zone = ''A''"
      from e have "e \<in> set [V_edge ''right'' 22.5 7 33, V_edge ''left'' 25.5 7 33]"
        unfolding a sa by (simp add: ev)
      with r a have "r \<in> set (edge_candidates (snap w0) (snap h0) ''A'' ZONE_A (V_edge ''right'' 22.5 7 33)) \<or>
          r \<in> set (edge_candidates (snap w0) (snap h0) ''A'' ZONE_A (V_edge ''left'' 25.5 7 33))"
        by (auto simp: zone_bounds_def)
      then show ?thesis
      proof
        assume "r \<in> set (edge_candidates (snap w0) (snap h0) ''A'' ZONE_A (V_edge ''right'' 22.5 7 33))"
        then show ?thesis unfolding sa by (rule v_right_full_side) (simp_all add: sn)
      next
        assume "r \<in> set (edge_candidates (snap w0) (snap h0) ''A'' ZONE_A (V_edge ''left'' 25.5 7 33))"
        then show ?thesis unfolding sa by (rule v_left_full_side) (simp_all add: sn)
      qed
    next
      assume a: "zone = ''B''"
      from e show ?thesis unfolding a sa by (simp add: ev)
    qed
  next
    case sb
    from z show ?thesis
    proof
      assume a: "zone = ''A''"
      from e show ?thesis unfolding a sb by (simp add: ev)
    next
      assume a: "zone = ''B''"
      from e have "e \<in> set [V_edge ''right'' 62.5 7 33, V_edge ''left'' 65.5 7 33]"
        unfolding a sb by (simp add: ev)
      with r a have "r \<in> set (edge_candidates (snap w0) (snap h0) ''B'' ZONE_B (V_edge ''right'' 62.5 7 33)) \<or>
          r \<in> set (edge_candidates (snap w0) (snap h0) ''B'' ZONE_B (V_edge ''left'' 65.5 7 33))"
        by (auto simp: zone_bounds_def)
      then show ?thesis
      proof
        assume "r \<in> set (edge_candidates (snap w0) (snap h0) ''B'' ZONE_B (V_edge ''right'' 62.5 7 33))"
        then show ?thesis unfolding sb by (rule v_right_full_side) (simp_all add: sn)
      next
        assume "r \<in> set (edge_candidates (snap w0) (snap h0) ''B'' ZONE_B (V_edge ''left'' 65.5 7 33))"
        then show ?thesis unfolding sb by (rule v_left_full_side) (simp_all add: sn)
      qed
    qed
  next
    case tm
    from z show ?thesis
    proof
      assume a: "zone = ''A''"
      from e have "e \<in> set [H_edge ''top'' 19 0 48, H_edge ''bottom'' 22 0 48]"
        unfolding a tm by (simp add: ev)
      with r a have "r \<in> set (edge_candidates (snap w0) (snap h0) ''A'' ZONE_A (H_edge ''top'' 19 0 48)) \<or>
          r \<in> set (edge_candidates (snap w0) (snap h0) ''A'' ZONE_A (H_edge ''bottom'' 22 0 48))"
        by (auto simp: zone_bounds_def)
      then show ?thesis
      proof
        assume "r \<in> set (edge_candidates (snap w0) (snap h0) ''A'' ZONE_A (H_edge ''top'' 19 0 48))"
        then show ?thesis unfolding tm by (rule h_top_full_side) (simp_all add: sn)
      next
        assume "r \<in> set (edge_candidates (snap w0) (snap h0) ''A'' ZONE_A (H_edge ''bottom'' 22 0 48))"
        then show ?thesis unfolding tm by (rule h_bottom_full_side) (simp_all add: sn)
      qed
    next
      assume a: "zone = ''B''"
      from e have "e \<in> set [H_edge ''top'' 19 52 80, H_edge ''bottom'' 22 52 80]"
        unfolding a tm by (simp add: ev)
      with r a have "r \<in> set (edge_candidates (snap w0) (snap h0) ''B'' ZONE_B (H_edge ''top'' 19 52 80)) \<or>
          r \<in> set (edge_candidates (snap w0) (snap h0) ''B'' ZONE_B (H_edge ''bottom'' 22 52 80))"
        by (auto simp: zone_bounds_def)
      then show ?thesis
      proof
        assume "r \<in> set (edge_candidates (snap w0) (snap h0) ''B'' ZONE_B (H_edge ''top'' 19 52 80))"
        then show ?thesis unfolding tm by (rule h_top_full_side) (simp_all add: sn)
      next
        assume "r \<in> set (edge_candidates (snap w0) (snap h0) ''B'' ZONE_B (H_edge ''bottom'' 22 52 80))"
        then show ?thesis unfolding tm by (rule h_bottom_full_side) (simp_all add: sn)
      qed
    qed
  qed
qed

lemma full_side_contact_key:
  "rect_key r = rect_key r' \<Longrightarrow> full_side_contact r c = full_side_contact r' c"
  by (simp add: rect_key_def full_side_contact_def)

lemma shape_candidates_full_side:
  assumes "zone = ''A'' \<or> zone = ''B''" "shape_candidates zone s = Inr cs" "r \<in> set cs"
  shows "\<exists>c \<in> set CORRIDORS. full_side_contact r c"
proof -
  from assms(2,3) obtain e where e: "e \<in> set (corridor_edges_for_zone zone)"
    and r: "r \<in> set (edge_candidates (snap (fst s)) (snap (snd s)) zone (zone_bounds zone) e)"
    by (auto simp: shape_candidates_def Let_def split: if_splits)
  from e obtain c where c: "c \<in> set CORRIDORS" "e \<in> set (corridor_edges zone c)"
    by (auto simp: corridor_edges_for_zone_def)
  from corridor_edge_full_side [OF assms(1) c r] c(1) show ?thesis by blast
qed

lemma shapes_candidates_full_side:
  assumes "zone = ''A'' \<or> zone = ''B''"
  shows "shapes_candidates zone shapes = Inr cs \<Longrightarrow> r \<in> set cs \<Longrightarrow>
         \<exists>c \<in> set CORRIDORS. full_side_contact r c"
proof (induction shapes arbitrary: cs)
  case Nil
  then show ?case by simp
next
  case (Cons s shapes)
  from Cons.prems(1) obtain c1 c2 where
    p: "shape_candidates zone s = Inr c1" "shapes_candidates zone shapes = Inr c2" "cs = c1 @ c2"
    by (auto split: sum.splits)
  with Cons.prems(2) have "r \<in> set c1 \<or> r \<in> set c2" by simp
  then show ?case
  proof
    assume "r \<in> set c1"
    with shape_candidates_full_side [OF assms p(1)] show ?thesis by blast
  next
    assume "r \<in> set c2"
    with Cons.IH [OF p(2)] show ?thesis by blast
  qed
qed

lemma generate_candidates_full_side:
  assumes "zone = ''A'' \<or> zone = ''B''" "generate_candidates area zone = Inr cands" "r \<in> set cands"
  shows "\<exists>c \<in> set CORRIDORS. full_side_contact r c"
proof -
  from assms(2) obtain shapes cs where cs: "shapes_candidates zone shapes = Inr cs"
    and cands: "cands = take 400 (sort_key dist (uniq_values cs))"
    by (auto simp: generate_candidates_def split: option.splits sum.splits)
  from assms(3) cands have "r \<in> set (sort_key dist (uniq_values cs))"
    by (auto dest: in_set_takeD)
  with uniq_values_props [of cs] have "r \<in> set cs" by auto
  with shapes_candidates_full_side [OF assms(1) cs] show ?thesis by blast
qed

lemma try_zones_Some_key:
  "try_zones cache blocking area placed zones = Inr (Some placed') \<Longrightarrow>
     \<exists>r z c cand. placed' = placed @ [r] \<and> cache (area, z) = Some c \<and>
       cand \<in> set c \<and> rect_key r = rect_key cand"
proof (induction zones)
  case Nil
  then show ?case by simp
next
  case (Cons zone zones)
  from Cons.prems obtain cands where c: "cache (area, zone) = Some cands"
    by (auto split: option.splits)
  show ?case
  proof (cases "first_fit cands placed blocking")
    case None
    with Cons c show ?thesis by auto
  next
    case (Some cand)
    define r where "r = cand\<lparr>rlabel := zone @ ''_'' @
        str_nat (length (filter (\<lambda>p. rzone p = zone) placed) + 1), rzone := zone\<rparr>"
    from Cons.prems c Some have p: "placed' = placed @ [r]"
      by (simp add: r_def)
    have k: "rect_key r = rect_key cand" by (simp add: r_def rect_key_def)
    from first_fit_Some [OF Some] have "cand \<in> set cands" by simp
    with p k c show ?thesis by blast
  qed
qed

lemma greedy_loop_full_side:
  assumes cache: "\<forall>k cs. cache k = Some cs \<longrightarrow>
      (\<forall>cand \<in> set cs. \<exists>c \<in> set CORRIDORS. full_side_contact cand c)"
  shows "greedy_loop cache blocking order (placed, skipped) = Inr (placed', skipped') \<Longrightarrow>
     \<forall>r \<in> set placed. \<exists>c \<in> set CORRIDORS. full_side_contact r c \<Longrightarrow>
     \<forall>r \<in> set placed'. \<exists>c \<in> set CORRIDORS. full_side_contact r c"
proof (induction order arbitrary: placed skipped)
  case Nil
  then show ?case by simp
next
  case (Cons area rest)
  show ?case
  proof (cases "try_zones cache blocking area placed [''A'', ''B'']")
    case (Inl e)
    with Cons.prems show ?thesis by simp
  next
    case (Inr res)
    show ?thesis
    proof (cases res)
      case None
      with Inr Cons.prems Cons.IH [of placed "skipped @ [area]"] show ?thesis by simp
    next
      case (Some p)
      with Inr try_zones_Some_key [of cache blocking area placed "[''A'', ''B'']" p]
      obtain r z cs cand where r: "p = placed @ [r]" "cache (area, z) = Some cs"
        "cand \<in> set cs" "rect_key r = rect_key cand"
        by blast
      from cache r(2,3) obtain c where "c \<in> set CORRIDORS" "full_side_contact cand c"
        by blast
      with full_side_contact_key [OF r(4), of c]
      have "\<exists>c \<in> set CORRIDORS. full_side_contact r c" by blast
      with Cons.prems(2) r(1) have "\<forall>r \<in> set p. \<exists>c \<in> set CORRIDORS. full_side_contact r c"
        by auto
      with Cons.IH [of p skipped] Cons.prems(1) Inr Some show ?thesis by simp
    qed
  qed
qed

lemma fill_zones_entries:
  "fill_zones gen a zs c = Inr c' \<Longrightarrow> c' k = Some cs \<Longrightarrow>
     c k = Some cs \<or> (\<exists>z \<in> set zs. gen a z = Inr cs)"
proof (induction zs arbitrary: c)
  case Nil
  then show ?case by simp
next
  case (Cons z zs)
  from Cons.prems(1) obtain cz where g: "gen a z = Inr cz"
    and rest: "fill_zones gen a zs (c((a, z) \<mapsto> cz)) = Inr c'"
    by (auto split: sum.splits if_splits)
  from Cons.IH [OF rest Cons.prems(2)]
  have "(c((a, z) \<mapsto> cz)) k = Some cs \<or> (\<exists>z \<in> set zs. gen a z = Inr cs)" .
  with g show ?case by (auto split: if_splits)
qed

lemma fill_cache_entries:
  "fill_cache gen areas c = Inr c' \<Longrightarrow> c' k = Some cs \<Longrightarrow>
     c k = Some cs \<or> (\<exists>a. \<exists>z \<in> set [''A'', ''B'']. gen a z = Inr cs)"
proof (induction areas arbitrary: c)
  case Nil
  then show ?case by simp
next
  case (Cons a areas)
  from Cons.prems(1) obtain c1 where z: "fill_zones gen a [''A'', ''B''] c = Inr c1"
    and rest: "fill_cache gen areas c1 = Inr c'"
    by (auto split: sum.splits)
  from Cons.IH [OF rest Cons.prems(2)]
  have "c1 k = Some cs \<or> (\<exists>a. \<exists>z \<in> set [''A'', ''B'']. gen a z = Inr cs)" .
  then show ?case
  proof
    assume "c1 k = Some cs"
    from fill_zones_entries [OF z this] show ?thesis by blast
  next
    assume "\<exists>a. \<exists>z \<in> set [''A'', ''B'']. gen a z = Inr cs"
    then show ?thesis by blast
  qed
qed

lemma outer_expected_full_side:
  "list_all (\<lambda>r. list_ex (full_side_contact r) MAIN_CORRIDORS) outer_expected"
  by (simp add: outer_expected_def MAIN_CORRIDORS_def mk_rect_def full_side_contact_def
      isclose_def EPS_def rel_tol_def)

lemma touches_corridor_mono:
  "touches_corridor r cs \<Longrightarrow> set cs \<subseteq> set ds \<Longrightarrow> touches_corridor r ds"
  unfolding touches_corridor_iff by blast

lemma main_plan_booths:
  "\<exists>placed_inner skipped.
     main_plan = Inr (outer_expected, placed_inner, skipped) \<and>
     (\<forall>r \<in> set (outer_expected @ placed_inner).
        (\<exists>c \<in> set CORRIDORS. full_side_contact r c) \<and> touches_corridor r CORRIDORS)"
proof -
  define remaining :: "(int \<times> int) list" where "remaining =
    [(200, 2), (100, 3), (90, 2), (80, 3), (60, 4), (48, 5), (40, 4),
     (30, 0), (20, 5), (18, 0), (15, 0), (12, 0)]"
  define place_order where "place_order = build_place_order remaining"
  have "fst ` set remaining \<subseteq> fst ` set SHAPES"
    by (simp add: remaining_def SHAPES_def)
  with build_place_order_keys [of remaining]
  have keys: "set place_order \<subseteq> fst ` set SHAPES" unfolding place_order_def by blast
  have "\<exists>cs. generate_candidates a z = Inr cs \<and> cs \<noteq> []"
    if "a \<in> set (remdups place_order)" "z \<in> set [''A'', ''B'']" for a z
  proof -
    from that(1) keys have "a \<in> fst ` set SHAPES" by auto
    moreover from that(2) have "z = ''A'' \<or> z = ''B''" by simp
    ultimately show ?thesis by (rule generate_candidates_nonempty)
  qed
  then have "\<forall>a \<in> set (remdups place_order). \<forall>z \<in> set [''A'', ''B''].
      \<exists>cs. generate_candidates a z = Inr cs \<and> cs \<noteq> []"
    by blast
  from fill_cache_total [OF this] obtain c
    where c: "fill_cache generate_candidates (remdups place_order) Map.empty = Inr c"
    by blast
  from fill_cache_ok [OF c] have "cache_complete c place_order"
    unfolding cache_complete_def by (simp only: set_remdups) blast
  from greedy_loop_counts [OF this, of "CORRIDORS @ outer_expected" "[]" "[]"]
  obtain placed_inner skipped where
    g: "greedy_place_with_skips place_order c (CORRIDORS @ outer_expected) = Inr (placed_inner, skipped)"
    unfolding greedy_place_with_skips_def by blast
  have run: "main_plan = Inr (outer_expected, placed_inner, skipped)"
    unfolding main_plan_def layout_outer_strips_value err_bind_def sum.case prod.case
      subtract_used_value Let_def remaining_def [symmetric] place_order_def [symmetric] c g
    by (rule refl)
  have entries: "\<forall>k cs. c k = Some cs \<longrightarrow>
      (\<forall>cand \<in> set cs. \<exists>d \<in> set CORRIDORS. full_side_contact cand d)"
  proof (intro allI impI ballI)
    fix k cs cand assume k: "c k = Some cs" and cand: "cand \<in> set cs"
    from fill_cache_entries [OF c k] obtain a z where
      "z \<in> set [''A'', ''B'']" "generate_candidates a z = Inr cs"
      by auto
    then have "z = ''A'' \<or> z = ''B''" "generate_candidates a z = Inr cs" by simp_all
    from generate_candidates_full_side [OF this cand]
    show "\<exists>d \<in> set CORRIDORS. full_side_contact cand d" .
  qed
  from g have loop: "greedy_loop c (CORRIDORS @ outer_expected) place_order ([], []) =
      Inr (placed_inner, skipped)"
    by (simp add: greedy_place_with_skips_def)
  from greedy_loop_full_side [OF entries loop]
  have inner_full: "\<forall>r \<in> set placed_inner. \<exists>d \<in> set CORRIDORS. full_side_contact r d"
    by simp
  have "placed_ok (CORRIDORS @ outer_expected) []" by (simp add: placed_ok_def)
  with loop have "placed_ok (CORRIDORS @ outer_expected) placed_inner"
    by (rule greedy_loop_placed_ok)
  then have inner_touch: "\<forall>r \<in> set placed_inner. touches_corridor r CORRIDORS"
    using placed_ok_each by blast
  have main_sub: "set MAIN_CORRIDORS \<subseteq> set CORRIDORS" by (simp add: CORRIDORS_def)
  from outer_expected_full_side main_sub
  have outer_full: "\<forall>r \<in> set outer_expected. \<exists>d \<in> set CORRIDORS. full_side_contact r d"
    unfolding list_all_iff list_ex_iff_set by blast
  from outer_expected_contact
  have "\<forall>r \<in> set outer_expected. touches_corridor r MAIN_CORRIDORS"
    unfolding list_all_iff by blast
  with main_sub have outer_touch: "\<forall>r \<in> set outer_expected. touches_corridor r CORRIDORS"
    using touches_corridor_mono by blast
  from inner_full inner_touch outer_full outer_touch
  have "\<forall>r \<in> set (outer_expected @ placed_inner).
        (\<exists>c \<in> set CORRIDORS. full_side_contact r c) \<and> touches_corridor r CORRIDORS"
    by auto
  with run show ?thesis by blast
qed

text \<open>
  Claim C3 as stated fails: a 4 by 4 rectangle at (44, 38) has its right edge on the left
  edge of the main vertical corridor (x = 48), but its side spans y = 38..42 while the
  corridor ends at y = 40.  Only part of the side lies along the corridor, and
  \<open>touches_corridor\<close> still returns true.
\<close>

theorem touches_corridor_partial_contact_counterexample:
  "touches_corridor (mk_rect 44 38 4 4 '''' '''') [mk_rect 48 0 4 40 ''main_vertical'' ''''] \<and>
   \<not> full_side_contact (mk_rect 44 38 4 4 '''' '''') (mk_rect 48 0 4 40 ''main_vertical'' '''')"
  by (simp add: contact_lr_def contact_tb_def full_side_contact_def isclose_def
      mk_rect_def EPS_def rel_tol_def)

text \<open>
  Claim C3, amended.  \<open>touches_corridor r corridors\<close> returns true iff for at least one
  corridor \<open>c\<close> either a vertical edge of \<open>r\<close> coincides (by \<open>isclose\<close> with absolute
  tolerance 1e-6) with the opposite vertical edge of \<open>c\<close> and the two y-spans intersect
  (each begins strictly below the end of the other), or the same holds for horizontal
  edges and x-spans; the shared stretch may be only a part of the side of \<open>r\<close>, and
  contact in a single corner point does not count.  Nevertheless every placed booth
  touches a corridor along a full side: an entire side of every candidate that
  \<open>generate_candidates\<close> returns for zone A or B lies along an edge of a corridor, the
  allocator carries this from the cached candidates to the rectangles it places, and every
  booth that \<open>main\<close> places, in the outer strips or in the inner zones, has an entire side
  along a corridor edge and satisfies \<open>touches_corridor\<close>.
\<close>

theorem touches_corridor_and_full_side_of_placed:
  "(touches_corridor r cs \<longleftrightarrow>
      (\<exists>c \<in> set cs.
         ((isclose (rx r + rw r) (rx c) EPS \<or> isclose (rx c + rw c) (rx r) EPS) \<and>
          ry r < ry c + rh c \<and> ry c < ry r + rh r) \<or>
         ((isclose (ry r + rh r) (ry c) EPS \<or> isclose (ry c + rh c) (ry r) EPS) \<and>
          rx r < rx c + rw c \<and> rx c < rx r + rw r))) \<and>
   (\<forall>cands. (zone = ''A'' \<or> zone = ''B'') \<and> generate_candidates area zone = Inr cands \<longrightarrow>
      (\<forall>cand \<in> set cands. \<exists>c \<in> set CORRIDORS. full_side_contact cand c)) \<and>
   (\<forall>placed skipped.
      (\<forall>k cands. candidates_cache k = Some cands \<longrightarrow>
         (\<forall>cand \<in> set cands. \<exists>c \<in> set CORRIDORS. full_side_contact cand c)) \<and>
      greedy_place_with_skips place_order candidates_cache blocking = Inr (placed, skipped) \<longrightarrow>
      (\<forall>b \<in> set placed. \<exists>c \<in> set CORRIDORS. full_side_contact b c)) \<and>
   (\<exists>placed_inner skipped.
      main_plan = Inr (outer_expected, placed_inner, skipped) \<and>
      (\<forall>b \<in> set (outer_expected @ placed_inner).
         (\<exists>c \<in> set CORRIDORS. full_side_contact b c) \<and> touches_corridor b CORRIDORS))"
proof -
  have lr: "contact_lr r c \<longleftrightarrow>
      (isclose (rx r + rw r) (rx c) EPS \<or> isclose (rx c + rw c) (rx r) EPS) \<and>
      ry r < ry c + rh c \<and> ry c < ry r + rh r" for c
    unfolding contact_lr_def by auto
  have tb: "contact_tb r c \<longleftrightarrow>
      (isclose (ry r + rh r) (ry c) EPS \<or> isclose (ry c + rh c) (ry r) EPS) \<and>
      rx r < rx c + rw c \<and> rx c < rx r + rw r" for c
    unfolding contact_tb_def by auto
  have a: "touches_corridor r cs \<longleftrightarrow>
      (\<exists>c \<in> set cs.
         ((isclose (rx r + rw r) (rx c) EPS \<or> isclose (rx c + rw c) (rx r) EPS) \<and>
          ry r < ry c + rh c \<and> ry c < ry r + rh r) \<or>
         ((isclose (ry r + rh r) (ry c) EPS \<or> isclose (ry c + rh c) (ry r) EPS) \<and>
          rx r < rx c + rw c \<and> rx c < rx r + rw r))"
    unfolding touches_corridor_iff lr tb ..
  have b: "\<forall>cands. (zone = ''A'' \<or> zone = ''B'') \<and> generate_candidates area zone = Inr cands \<longrightarrow>
      (\<forall>cand \<in> set cands. \<exists>c \<in> set CORRIDORS. full_side_contact cand c)"
    using generate_candidates_full_side by blast
  have c: "\<forall>placed skipped.
      (\<forall>k cands. candidates_cache k = Some cands \<longrightarrow>
         (\<forall>cand \<in> set cands. \<exists>c \<in> set CORRIDORS. full_side_contact cand c)) \<and>
      greedy_place_with_skips place_order candidates_cache blocking = Inr (placed, skipped) \<longrightarrow>
      (\<forall>b \<in> set placed. \<exists>c \<in> set CORRIDORS. full_side_contact b c)"
  proof (intro allI impI)
    fix placed skipped
    assume h: "(\<forall>k cands. candidates_cache k = Some cands \<longrightarrow>
         (\<forall>cand \<in> set cands. \<exists>c \<in> set CORRIDORS. full_side_contact cand c)) \<and>
      greedy_place_with_skips place_order candidates_cache blocking = Inr (placed, skipped)"
    then have e: "\<forall>k cands. candidates_cache k = Some cands \<longrightarrow>
         (\<forall>cand \<in> set cands. \<exists>c \<in> set CORRIDORS. full_side_contact cand c)"
      and l: "greedy_loop candidates_cache blocking place_order ([], []) = Inr (placed, skipped)"
      by (simp_all add: greedy_place_with_skips_def)
    from greedy_loop_full_side [OF e l]
    show "\<forall>b \<in> set placed. \<exists>c \<in> set CORRIDORS. full_side_contact b c" by simp
  qed
  show ?thesis
    by (intro conjI) (rule a b c main_plan_booths)+
qed

theorem touches_corridor_and_full_side_of_placed_witness:
  "mk_rect 0 37 10 3 ''C_1'' ''C'' \<in> set outer_expected \<and>
   (\<exists>c \<in> set CORRIDORS. full_side_contact (mk_rect 0 37 10 3 ''C_1'' ''C'') c) \<and>
   touches_corridor (mk_rect 0 37 10 3 ''C_1'' ''C'') CORRIDORS \<and>
   (\<exists>cands. generate_candidates 200 ''A'' = Inr cands \<and> cands \<noteq> [] \<and>
      (\<exists>c \<in> set CORRIDORS. full_side_contact (hd cands) c))"
proof -
  note t = touches_corridor_and_full_side_of_placed [where zone = "''A''" and area = 200]
  have m: "mk_rect 0 37 10 3 ''C_1'' ''C'' \<in> set outer_expected"
    by (simp add: outer_expected_def)
  from t [THEN conjunct2, THEN conjunct2, THEN conjunct2] m
  have o: "(\<exists>c \<in> set CORRIDORS. full_side_contact (mk_rect 0 37 10 3 ''C_1'' ''C'') c) \<and>
      touches_corridor (mk_rect 0 37 10 3 ''C_1'' ''C'') CORRIDORS"
    by auto
  have "200 \<in> fst ` set SHAPES" by (simp add: SHAPES_def)
  from generate_candidates_nonempty [OF this, of "''A''"] obtain cands
    where g: "generate_candidates 200 ''A'' = Inr cands" "cands \<noteq> []" by auto
  then have "hd cands \<in> set cands" by simp
  with t [THEN conjunct2, THEN conjunct1] g(1)
  have "\<exists>c \<in> set CORRIDORS. full_side_contact (hd cands) c" by blast
  with g have "\<exists>cands. generate_candidates 200 ''A'' = Inr cands \<and> cands \<noteq> [] \<and>
      (\<exists>c \<in> set CORRIDORS. full_side_contact (hd cands) c)"
    by blast
  with m o show ?thesis by blast
qed


end
